theory Spec2Isabelle
  imports Complex_Main "HOL-Library.AList" "HOL-Library.Char_ord" "HOL-Library.List_Lexorder"
    "HOL-Library.Log_Nat"
begin

section \<open>Data model\<close>

text \<open>
  Python dictionaries keep insertion order, and the code depends on that order (the order
  of the dimensions, the order of the combinations), so a dictionary is an association
  list: \<open>map_of\<close> reads a key, \<open>AList.update\<close> stores a value (in place when the key is
  present, at the end otherwise, as Python does). A well-formed dictionary has distinct keys.
  Python's integers are unbounded: \<open>int\<close>. The weights of the estimator, Python floats,
  are idealised as \<open>real\<close>; the floats of the composer are modelled in its section.
\<close>

datatype error = KeyError | ValueError | IndexError | ZeroDivisionError | OverflowError

type_synonym marginal = "(string \<times> int) list"
type_synonym marginals = "(string \<times> marginal) list"
type_synonym event = "(string \<times> string) list"
type_synonym row = "(string \<times> string) list"
type_synonym hourly_data = "(string \<times> row list) list"

text \<open>\<open>d[k]\<close>: raises KeyError when the key is missing.\<close>

definition getitem :: "('k \<times> 'v) list \<Rightarrow> 'k \<Rightarrow> error + 'v" where
  "getitem d k = (case map_of d k of None \<Rightarrow> Inl KeyError | Some v \<Rightarrow> Inr v)"

text \<open>\<open>d.get(k, default)\<close>.\<close>

definition get_default :: "('k \<times> 'v) list \<Rightarrow> 'k \<Rightarrow> 'v \<Rightarrow> 'v" where
  "get_default d k dflt = (case map_of d k of None \<Rightarrow> dflt | Some v \<Rightarrow> v)"

text \<open>\<open>sum(d.values())\<close>.\<close>

definition sum_values :: "('k \<times> int) list \<Rightarrow> int" where
  "sum_values d = sum_list (map snd d)"

section \<open>Marginal Extractor (simple\_ipf.get\_marginal\_totals)\<close>

definition is_space :: "char \<Rightarrow> bool" where
  "is_space c = (c \<in> set [CHR '' '', CHR 0x09, CHR 0x0A, CHR 0x0B, CHR 0x0C, CHR 0x0D])"

definition strip :: "string \<Rightarrow> string" where
  "strip s = rev (dropWhile is_space (rev (dropWhile is_space s)))"

text \<open>
  \<open>safe_int\<close>: the builtin \<open>int()\<close> is a parameter \<open>py_int\<close>, \<open>None\<close> where it raises
  ValueError; the empty and the all-blank field are 0 before \<open>int()\<close> is called.
\<close>

definition safe_int :: "(string \<Rightarrow> int option) \<Rightarrow> string \<Rightarrow> int" where
  "safe_int py_int v =
     (if v \<noteq> [] \<and> strip v \<noteq> [] then (case py_int v of Some n \<Rightarrow> n | None \<Rightarrow> 0) else 0)"

text \<open>Sequencing of computations that may raise: the first error is the result.\<close>

definition ebind :: "error + 'a \<Rightarrow> ('a \<Rightarrow> error + 'b) \<Rightarrow> error + 'b" where
  "ebind m f = (case m of Inl e \<Rightarrow> Inl e | Inr x \<Rightarrow> f x)"

text \<open>\<open>sum(safe_int(row['Pageviews']) for row in hourly_data.get('site', []))\<close>.\<close>

fun sum_column :: "(string \<Rightarrow> int option) \<Rightarrow> string \<Rightarrow> row list \<Rightarrow> error + int" where
  "sum_column py_int col [] = Inr 0"
| "sum_column py_int col (r # rs) =
     ebind (getitem r col) (\<lambda>v.
     ebind (sum_column py_int col rs) (\<lambda>s. Inr (safe_int py_int v + s)))"

text \<open>
  One per-dimension loop:
  \<open>for row in rows: k = row[key_col]; n = safe_int(row[count_col]); m[k] = m.get(k, 0) + n\<close>.
\<close>

fun accumulate :: "(string \<Rightarrow> int option) \<Rightarrow> string \<Rightarrow> string \<Rightarrow> row list \<Rightarrow> marginal
    \<Rightarrow> error + marginal" where
  "accumulate py_int key_col count_col [] m = Inr m"
| "accumulate py_int key_col count_col (r # rs) m =
     ebind (getitem r key_col) (\<lambda>k.
     ebind (getitem r count_col) (\<lambda>v.
       accumulate py_int key_col count_col rs
         (AList.update k (get_default m k 0 + safe_int py_int v) m)))"

definition total_pageviews :: "(string \<Rightarrow> int option) \<Rightarrow> hourly_data \<Rightarrow> error + int" where
  "total_pageviews py_int hdata = sum_column py_int ''Pageviews'' (get_default hdata ''site'' [])"

definition referrer_counts :: "(string \<Rightarrow> int option) \<Rightarrow> hourly_data \<Rightarrow> error + marginal" where
  "referrer_counts py_int hdata =
     accumulate py_int ''Referrer Hostname'' ''Views'' (get_default hdata ''referrers'' []) []"

text \<open>The last step: \<open>if direct_visits > 0: marginals['referrers']['(direct)'] = direct_visits\<close>.\<close>

definition add_direct :: "int \<Rightarrow> marginal \<Rightarrow> marginal" where
  "add_direct site_total refs =
     (let referrer_total = sum_values refs; direct_visits = site_total - referrer_total
      in if direct_visits > 0 then AList.update ''(direct)'' direct_visits refs else refs)"

definition get_marginal_totals :: "(string \<Rightarrow> int option) \<Rightarrow> hourly_data \<Rightarrow> error + marginals" where
  "get_marginal_totals py_int hdata =
     ebind (total_pageviews py_int hdata) (\<lambda>site_total.
     ebind (accumulate py_int ''Pathname'' ''Views'' (get_default hdata ''pages'' []) []) (\<lambda>pages.
     ebind (accumulate py_int ''Browser'' ''Pageviews'' (get_default hdata ''browsers'' []) []) (\<lambda>browsers.
     ebind (accumulate py_int ''Country'' ''Pageviews'' (get_default hdata ''countries'' []) []) (\<lambda>countries.
     ebind (accumulate py_int ''Device Type'' ''Pageviews'' (get_default hdata ''devices'' []) []) (\<lambda>devices.
     ebind (referrer_counts py_int hdata) (\<lambda>refs.
       Inr [(''pages'', pages), (''browsers'', browsers), (''countries'', countries),
            (''devices'', devices), (''referrers'', add_direct site_total refs)]))))))"

section \<open>Joint Weight Estimator (exact\_ipf.run\_ipf\_for\_weights)\<close>

type_synonym combo = "string list"
type_synonym table = "(combo \<times> real) list"

text \<open>
  \<open>dimensions[dim_name] = sorted(totals.keys())\<close> for every dimension whose totals are not
  empty, in the order of the marginals. Python compares strings by code point, which on
  UTF-8 bytes is the lexicographic order of the bytes.
\<close>

definition active_dimensions :: "marginals \<Rightarrow> (string \<times> string list) list" where
  "active_dimensions m = map (\<lambda>(d, t). (d, sort (map fst t))) (filter (\<lambda>(d, t). t \<noteq> []) m)"

text \<open>\<open>max(...)\<close> of a sequence: ValueError when it is empty.\<close>

fun py_max :: "int list \<Rightarrow> error + int" where
  "py_max [] = Inl ValueError"
| "py_max (x # xs) = Inr (fold max xs x)"

definition total_events_of :: "marginals \<Rightarrow> error + int" where
  "total_events_of m = py_max (map (\<lambda>(d, t). sum_values t) m)"

text \<open>\<open>a / b\<close> on integers: true division, ZeroDivisionError when \<open>b = 0\<close>.\<close>

definition py_truediv :: "int \<Rightarrow> int \<Rightarrow> error + real" where
  "py_truediv a b = (if b = 0 then Inl ZeroDivisionError else Inr (real_of_int a / real_of_int b))"

fun normalize_totals :: "marginal \<Rightarrow> int \<Rightarrow> error + (string \<times> real) list" where
  "normalize_totals [] te = Inr []"
| "normalize_totals ((k, v) # t) te =
     ebind (py_truediv v te) (\<lambda>p.
     ebind (normalize_totals t te) (\<lambda>r. Inr ((k, p) # r)))"

fun normalize_marginals :: "marginals \<Rightarrow> int \<Rightarrow> error + (string \<times> (string \<times> real) list) list" where
  "normalize_marginals [] te = Inr []"
| "normalize_marginals ((d, t) # m) te =
     (if t \<noteq> [] then
        ebind (normalize_totals t te) (\<lambda>nt.
        ebind (normalize_marginals m te) (\<lambda>r. Inr ((d, nt) # r)))
      else normalize_marginals m te)"

text \<open>
  The uniform table: weight 1.0 for every combination, then divided by their sum. The
  division runs once per entry, so only with a positive sum.
\<close>

definition uniform_table :: "combo list \<Rightarrow> table" where
  "uniform_table cs =
     (let t = map (\<lambda>c. (c, 1::real)) cs; s = sum_list (map snd t)
      in map (\<lambda>(c, p). (c, p / s)) t)"

text \<open>\<open>xs.index(x)\<close>: ValueError when absent. \<open>t[i]\<close> on a tuple: IndexError out of range.\<close>

fun list_index :: "'a list \<Rightarrow> 'a \<Rightarrow> error + nat" where
  "list_index [] x = Inl ValueError"
| "list_index (y # ys) x = (if y = x then Inr 0 else ebind (list_index ys x) (\<lambda>i. Inr (Suc i)))"

definition tuple_get :: "'a list \<Rightarrow> nat \<Rightarrow> error + 'a" where
  "tuple_get c i = (if i < length c then Inr (c ! i) else Inl IndexError)"

text \<open>First loop of a constraint application: the current aggregate per category value.\<close>

fun current_marginals :: "table \<Rightarrow> nat \<Rightarrow> (string \<times> real) list \<Rightarrow> error + (string \<times> real) list" where
  "current_marginals [] i cm = Inr cm"
| "current_marginals ((c, p) # t) i cm =
     ebind (tuple_get c i) (\<lambda>v.
       current_marginals t i (AList.update v (get_default cm v 0 + p) cm))"

text \<open>Second loop: rescale every combination, or pin it to 0 when its aggregate is not positive.\<close>

fun adjust :: "table \<Rightarrow> nat \<Rightarrow> (string \<times> real) list \<Rightarrow> (string \<times> real) list \<Rightarrow> error + table" where
  "adjust [] i cm mt = Inr []"
| "adjust ((c, p) # t) i cm mt =
     ebind (tuple_get c i) (\<lambda>v.
       (let current_total = get_default cm v 0; target_total = get_default mt v 0;
            new_p = (if current_total > 0 then p * (target_total / current_total) else 0)
        in ebind (adjust t i cm mt) (\<lambda>r. Inr ((c, new_p) # r))))"

definition apply_marginal_constraint_simple ::
    "table \<Rightarrow> string list \<Rightarrow> string \<Rightarrow> (string \<times> real) list \<Rightarrow> error + table" where
  "apply_marginal_constraint_simple tbl dim_names constraint_dim marginal_totals =
     ebind (list_index dim_names constraint_dim) (\<lambda>dim_index.
     ebind (current_marginals tbl dim_index []) (\<lambda>cm.
       adjust tbl dim_index cm marginal_totals))"

text \<open>The variant of simple\_ipf: a dimension that is not active leaves the table as it is.\<close>

definition apply_marginal_constraint ::
    "table \<Rightarrow> string list \<Rightarrow> string \<Rightarrow> (string \<times> real) list \<Rightarrow> error + table" where
  "apply_marginal_constraint tbl dim_names constraint_dim marginal_totals =
     (if constraint_dim \<notin> set dim_names then Inr tbl
      else apply_marginal_constraint_simple tbl dim_names constraint_dim marginal_totals)"

text \<open>One full sweep: every dimension in order.\<close>

fun sweep :: "string list \<Rightarrow> string list \<Rightarrow> (string \<times> (string \<times> real) list) list \<Rightarrow> table
    \<Rightarrow> error + table" where
  "sweep [] dim_names nm tbl = Inr tbl"
| "sweep (d # ds) dim_names nm tbl =
     (case map_of nm d of
        Some mt \<Rightarrow> ebind (apply_marginal_constraint_simple tbl dim_names d mt)
                     (sweep ds dim_names nm)
      | None \<Rightarrow> sweep ds dim_names nm tbl)"

definition total_change :: "table \<Rightarrow> table \<Rightarrow> real" where
  "total_change tbl old_table = sum_list (map (\<lambda>(k, p). \<bar>p - get_default old_table k 0\<bar>) tbl)"

text \<open>
  The loop \<open>for iteration in range(50)\<close> with its \<open>break\<close>; the first argument is the number
  of sweeps still allowed, the result also counts the sweeps that ran.
\<close>

fun ipf_loop :: "nat \<Rightarrow> string list \<Rightarrow> (string \<times> (string \<times> real) list) list \<Rightarrow> table
    \<Rightarrow> error + (table \<times> nat)" where
  "ipf_loop 0 dim_names nm tbl = Inr (tbl, 0)"
| "ipf_loop (Suc n) dim_names nm tbl =
     ebind (sweep dim_names dim_names nm tbl) (\<lambda>tbl'.
       if total_change tbl' tbl < 1 / 10 ^ 8 then Inr (tbl', 1)
       else ebind (ipf_loop n dim_names nm tbl') (\<lambda>(r, k). Inr (r, Suc k)))"

definition run_ipf_sweeps :: "marginals \<Rightarrow> error + (table \<times> nat)" where
  "run_ipf_sweeps m =
     (let dims = active_dimensions m; dim_names = map fst dims; dim_values = map snd dims;
          tbl = uniform_table (product_lists dim_values)
      in ebind (total_events_of m) (\<lambda>te.
         ebind (normalize_marginals m te) (\<lambda>nm.
           ipf_loop 50 dim_names nm tbl)))"

definition run_ipf_for_weights :: "marginals \<Rightarrow> error + (table \<times> unit option \<times> string list)" where
  "run_ipf_for_weights m =
     ebind (run_ipf_sweeps m) (\<lambda>(tbl, k). Inr (tbl, None, map fst (active_dimensions m)))"

section \<open>Exact Integer Assignment Solver (exact\_ipf.solve\_integer\_assignment)\<close>

record assign_state =
  events :: "event list"
  remaining_quotas :: marginals
  remaining_events :: int

text \<open>\<open>tuple(combo_dict[dim] for dim in dim_names)\<close>.\<close>

fun combo_tuple :: "event \<Rightarrow> string list \<Rightarrow> error + combo" where
  "combo_tuple c [] = Inr []"
| "combo_tuple c (d # ds) =
     ebind (getitem c d) (\<lambda>v. ebind (combo_tuple c ds) (\<lambda>r. Inr (v # r)))"

fun combo_weights :: "event list \<Rightarrow> string list \<Rightarrow> table \<Rightarrow> error + (event \<times> real) list" where
  "combo_weights [] dim_names wt = Inr []"
| "combo_weights (c # cs) dim_names wt =
     ebind (combo_tuple c dim_names) (\<lambda>tup.
     ebind (combo_weights cs dim_names wt) (\<lambda>r. Inr ((c, get_default wt tup 0) # r)))"

text \<open>
  \<open>combo_weights.sort(key=lambda x: x[1], reverse=True)\<close>: descending by weight, and stable
  (equal weights keep their order, also with \<open>reverse=True\<close>).
\<close>

definition sort_by_weight :: "(event \<times> real) list \<Rightarrow> (event \<times> real) list" where
  "sort_by_weight cw = sort_key (\<lambda>(c, w). - w) cw"

text \<open>The inner loop that computes \<open>max_assignable\<close>, started at \<open>remaining_events\<close>.\<close>

fun max_assignable :: "string list \<Rightarrow> event \<Rightarrow> marginals \<Rightarrow> int \<Rightarrow> error + int" where
  "max_assignable [] c q a = Inr a"
| "max_assignable (d # ds) c q a =
     ebind (getitem c d) (\<lambda>v.
     ebind (getitem q d) (\<lambda>t.
       max_assignable ds c q (min a (get_default t v 0))))"

text \<open>The inner loop \<open>remaining_quotas[dim_name][dim_value] -= max_assignable\<close>.\<close>

fun decrement_quotas :: "string list \<Rightarrow> event \<Rightarrow> int \<Rightarrow> marginals \<Rightarrow> error + marginals" where
  "decrement_quotas [] c a q = Inr q"
| "decrement_quotas (d # ds) c a q =
     ebind (getitem c d) (\<lambda>v.
     ebind (getitem q d) (\<lambda>t.
     ebind (getitem t v) (\<lambda>n.
       decrement_quotas ds c a (AList.update d (AList.update v (n - a) t) q))))"

definition assign_step :: "string list \<Rightarrow> event \<Rightarrow> assign_state \<Rightarrow> error + assign_state" where
  "assign_step dim_names c s =
     ebind (max_assignable dim_names c (remaining_quotas s) (remaining_events s)) (\<lambda>a.
       if a > 0 then
         ebind (decrement_quotas dim_names c a (remaining_quotas s)) (\<lambda>q.
           Inr \<lparr>events = events s @ replicate (nat a) c, remaining_quotas = q,
                remaining_events = remaining_events s - a\<rparr>)
       else Inr s)"

fun assign_loop :: "string list \<Rightarrow> (event \<times> real) list \<Rightarrow> assign_state \<Rightarrow> error + assign_state" where
  "assign_loop dim_names [] s = Inr s"
| "assign_loop dim_names ((c, w) # cs) s =
     (if remaining_events s \<le> 0 then Inr s
      else ebind (assign_step dim_names c s) (assign_loop dim_names cs))"

text \<open>The solver, with the whole final state (the source returns its \<open>events\<close>).\<close>

definition solve_integer_assignment_state ::
    "event list \<Rightarrow> string list \<Rightarrow> marginals \<Rightarrow> table \<Rightarrow> int \<Rightarrow> error + assign_state" where
  "solve_integer_assignment_state combinations dim_names m weights_table total_events =
     ebind (combo_weights combinations dim_names weights_table) (\<lambda>cw.
       assign_loop dim_names (sort_by_weight cw)
         \<lparr>events = [], remaining_quotas = m, remaining_events = total_events\<rparr>)"

definition solve_integer_assignment ::
    "event list \<Rightarrow> string list \<Rightarrow> marginals \<Rightarrow> table \<Rightarrow> int \<Rightarrow> error + event list" where
  "solve_integer_assignment combinations dim_names m weights_table total_events =
     ebind (solve_integer_assignment_state combinations dim_names m weights_table total_events)
       (\<lambda>s. Inr (events s))"

text \<open>\<open>[dict(zip(dim_names, combo)) for combo in itertools.product(...)]\<close>.\<close>

definition all_combinations :: "marginals \<Rightarrow> event list" where
  "all_combinations m =
     (let dims = active_dimensions m
      in map (zip (map fst dims)) (product_lists (map snd dims)))"

definition solve_exact_distribution :: "marginals \<Rightarrow> error + (event list \<times> event list)" where
  "solve_exact_distribution m =
     (let dims = active_dimensions m
      in if dims = [] then Inr ([], [])
         else
           ebind (run_ipf_for_weights m) (\<lambda>(tbl, u, names).
           ebind (total_events_of m) (\<lambda>te.
           ebind (solve_integer_assignment (all_combinations m) (map fst dims) m tbl te) (\<lambda>evs.
             Inr (evs, all_combinations m)))))"

section \<open>Round-trip Verifier (validate\_reconstruction)\<close>

definition dimension_names :: "string list" where
  "dimension_names = [''pages'', ''browsers'', ''countries'', ''devices'', ''referrers'']"

text \<open>\<open>reconstructed[d][event[d]] += 1\<close> for each dimension of the list, for one event.\<close>

fun count_event :: "string list \<Rightarrow> event \<Rightarrow> marginals \<Rightarrow> error + marginals" where
  "count_event [] e r = Inr r"
| "count_event (d # ds) e r =
     ebind (getitem e d) (\<lambda>v.
     ebind (getitem r d) (\<lambda>t.
       count_event ds e (AList.update d (AList.update v (get_default t v 0 + 1) t) r)))"

fun count_events :: "string list \<Rightarrow> event list \<Rightarrow> marginals \<Rightarrow> error + marginals" where
  "count_events dims [] r = Inr r"
| "count_events dims (e # es) r = ebind (count_event dims e r) (count_events dims es)"

text \<open>The recount over a given list of dimensions, each starting from an empty counter.\<close>

definition recount :: "string list \<Rightarrow> event list \<Rightarrow> error + marginals" where
  "recount dims evs = count_events dims evs (map (\<lambda>d. (d, [])) dims)"

definition reconstruct_marginals_from_events :: "event list \<Rightarrow> error + marginals" where
  "reconstruct_marginals_from_events evs = recount dimension_names evs"

text \<open>
  \<open>compare_marginals\<close>: for each of the five dimensions, every key of either dictionary
  has the same count on both sides, a missing key counting 0. (The printing is left out.)
\<close>

definition compare_dimension :: "marginals \<Rightarrow> marginals \<Rightarrow> string \<Rightarrow> bool" where
  "compare_dimension original reconstructed dim_name =
     (let orig_dict = get_default original dim_name []; recon_dict = get_default reconstructed dim_name []
      in list_all (\<lambda>key. get_default orig_dict key 0 = get_default recon_dict key 0)
           (map fst orig_dict @ map fst recon_dict))"

definition compare_marginals :: "marginals \<Rightarrow> marginals \<Rightarrow> bool" where
  "compare_marginals original reconstructed =
     list_all (compare_dimension original reconstructed) dimension_names"

section \<open>Session Composer (create\_session\_visits)\<close>

subsection \<open>Floats\<close>

text \<open>
  A Python float is a finite number, an infinity or NaN. Two uses of floats decide what
  the composer does and are modelled as Python computes them: the product
  \<open>visit_count * bounce_rate\<close>, rounded to the nearest double before \<open>round\<close> turns it
  into the number of bounce visits, and the offset passed to \<open>timedelta\<close>, which raises on
  NaN, on an infinity and on a value out of range. Exponents beyond the range of a double
  (overflow to an infinity, subnormal numbers) are not modelled, and the offsets in seconds
  are computed exactly.
\<close>

datatype pyfloat = Finite real | PosInf | NegInf | NaN

text \<open>Python's \<open>round\<close> of a float to an integer: to the nearest, a tie to the even one.\<close>

definition py_round :: "real \<Rightarrow> int" where
  "py_round x =
     (let f = \<lfloor>x\<rfloor>; d = x - of_int f
      in if d < 1 / 2 then f else if 1 / 2 < d then f + 1 else if even f then f else f + 1)"

definition pow2 :: "int \<Rightarrow> real" where
  "pow2 k = (if 0 \<le> k then 2 ^ nat k else 1 / 2 ^ nat (- k))"

text \<open>The binary exponent of a positive number \<open>x\<close>: the \<open>e\<close> with \<open>2^e \<le> x < 2^(e+1)\<close>.\<close>

definition float_exponent :: "real \<Rightarrow> int" where
  "float_exponent x =
     (if 1 \<le> x then int (floorlog 2 (nat \<lfloor>x\<rfloor>)) - 1
      else - int (floorlog 2 (nat (\<lceil>1 / x\<rceil> - 1))))"

text \<open>
  The nearest double: 53 significant bits, so the spacing at \<open>x\<close> is
  \<open>2^(e - 52)\<close>, and a tie goes to the even multiple of the spacing.
\<close>

definition round_double :: "real \<Rightarrow> real" where
  "round_double x =
     (if x = 0 then 0
      else (let u = pow2 (float_exponent \<bar>x\<bar> - 52) in of_int (py_round (x / u)) * u))"

text \<open>\<open>n * b\<close> for an integer \<open>n\<close> and a float \<open>b\<close>: \<open>n\<close> is converted to a float first.\<close>

definition float_mul_int :: "int \<Rightarrow> pyfloat \<Rightarrow> pyfloat" where
  "float_mul_int n b =
     (case b of
        Finite y \<Rightarrow> Finite (round_double (round_double (of_int n) * y))
      | PosInf \<Rightarrow> (if 0 < n then PosInf else if n < 0 then NegInf else NaN)
      | NegInf \<Rightarrow> (if 0 < n then NegInf else if n < 0 then PosInf else NaN)
      | NaN \<Rightarrow> NaN)"

text \<open>\<open>round(x)\<close>: ValueError on NaN, OverflowError on an infinity.\<close>

definition round_float :: "pyfloat \<Rightarrow> error + int" where
  "round_float x =
     (case x of Finite y \<Rightarrow> Inr (py_round y) | NaN \<Rightarrow> Inl ValueError
      | PosInf \<Rightarrow> Inl OverflowError | NegInf \<Rightarrow> Inl OverflowError)"



subsection \<open>Timestamps\<close>






subsection \<open>The visits\<close>

text \<open>
  \<open>for i in range(bounced_visits): if events_copy: visits.append([events_copy.pop(0)])\<close>;
  the state is the pair of \<open>visits\<close> and \<open>events_copy\<close>.
\<close>

fun bounce_loop :: "nat \<Rightarrow> 'a list list \<Rightarrow> 'a list \<Rightarrow> 'a list list \<times> 'a list" where
  "bounce_loop 0 visits ec = (visits, ec)"
| "bounce_loop (Suc n) visits ec =
     (case ec of [] \<Rightarrow> bounce_loop n visits ec
      | e # rest \<Rightarrow> bounce_loop n (visits @ [[e]]) rest)"

text \<open>\<open>for j in range(visit_size): if events_copy: visit.append(events_copy.pop(0))\<close>.\<close>

fun fill_visit :: "nat \<Rightarrow> 'a list \<Rightarrow> 'a list \<Rightarrow> 'a list \<times> 'a list" where
  "fill_visit 0 visit ec = (visit, ec)"
| "fill_visit (Suc n) visit ec =
     (case ec of [] \<Rightarrow> fill_visit n visit ec
      | e # rest \<Rightarrow> fill_visit n (visit @ [e]) rest)"

text \<open>\<open>visit_size = events_per_visit + (1 if i < remainder else 0)\<close>.\<close>

definition visit_size :: "int \<Rightarrow> int \<Rightarrow> nat \<Rightarrow> int" where
  "visit_size events_per_visit remainder i =
     events_per_visit + (if int i < remainder then 1 else 0)"

text \<open>The loop \<open>for i in range(multi_page_visits)\<close>, over the list of its indices.\<close>

fun multi_loop :: "nat list \<Rightarrow> int \<Rightarrow> int \<Rightarrow> 'a list list \<Rightarrow> 'a list \<Rightarrow> 'a list list \<times> 'a list" where
  "multi_loop [] events_per_visit remainder visits ec = (visits, ec)"
| "multi_loop (i # is) events_per_visit remainder visits ec =
     (let (visit, ec') = fill_visit (nat (visit_size events_per_visit remainder i)) [] ec
      in multi_loop is events_per_visit remainder
           (if visit \<noteq> [] then visits @ [visit] else visits) ec')"

text \<open>\<open>bounced_visits = round(visit_count * bounce_rate)\<close>.\<close>

definition bounced_visits :: "int \<Rightarrow> pyfloat \<Rightarrow> error + int" where
  "bounced_visits visit_count bounce_rate = round_float (float_mul_int visit_count bounce_rate)"

text \<open>
  The visit structure built from \<open>bounced_visits\<close>, with the events left in
  \<open>events_copy\<close> at the end.
\<close>

definition build_visits :: "'a list \<Rightarrow> int \<Rightarrow> int \<Rightarrow> 'a list list \<times> 'a list" where
  "build_visits evs visit_count bounced =
     (let multi_page_visits = visit_count - bounced;
          (visits, ec) = bounce_loop (nat bounced) [] evs
      in if multi_page_visits > 0 \<and> ec \<noteq> [] then
           (let events_per_visit = int (length ec) div multi_page_visits;
                remainder = int (length ec) mod multi_page_visits
            in multi_loop [0..<nat multi_page_visits] events_per_visit remainder visits ec)
         else (visits, ec))"

subsection \<open>The output events\<close>






section \<open>The two scenarios of the specification\<close>

definition feasible_marginals :: marginals where
  "feasible_marginals =
     [(''pages'', [(''/a'', 3), (''/b'', 2)]), (''browsers'', [(''Chrome'', 4), (''Safari'', 1)])]"

definition infeasible_marginals :: marginals where
  "infeasible_marginals =
     [(''pages'', [(''/a'', 3)]), (''browsers'', [(''Chrome'', 1), (''Safari'', 1)])]"

definition no_active_marginals :: marginals where
  "no_active_marginals = map (\<lambda>d. (d, [])) dimension_names"

section \<open>Notions used to state the properties of the weight estimator\<close>

text \<open>
  The aggregated weight of a category value in a dimension, as the specification words
  it: the sum of the weights of all combinations that hold the value at that position.
\<close>

definition aggregate :: "table \<Rightarrow> nat \<Rightarrow> string \<Rightarrow> real" where
  "aggregate tbl i v = sum_list (map snd (filter (\<lambda>(c, p). tuple_get c i = Inr v) tbl))"

text \<open>
  The second table has the combinations of the first, in the same order, and every
  combination of weight 0 in the first has weight 0 in the second.
\<close>

definition zeros_kept :: "table \<Rightarrow> table \<Rightarrow> bool" where
  "zeros_kept tbl tbl' = list_all2 (\<lambda>x y. fst y = fst x \<and> (snd x = 0 \<longrightarrow> snd y = 0)) tbl tbl'"



section \<open>Notions used to state the properties of the assignment\<close>

text \<open>The quota of a category value as the loop reads it: \<open>remaining_quotas[d].get(v, 0)\<close>.\<close>

definition quota_of :: "marginals \<Rightarrow> string \<Rightarrow> string \<Rightarrow> int" where
  "quota_of q d v = get_default (get_default q d []) v 0"

text \<open>The number of events of a list that hold the value \<open>v\<close> in the dimension \<open>d\<close>.\<close>

definition count_value :: "event list \<Rightarrow> string \<Rightarrow> string \<Rightarrow> nat" where
  "count_value evs d v = length (filter (\<lambda>e. map_of e d = Some v) evs)"

section \<open>Notions used to state the properties of the composer\<close>

text \<open>Consecutive pieces of a list, of the given lengths.\<close>

fun chunks :: "nat list \<Rightarrow> 'a list \<Rightarrow> 'a list list" where
  "chunks [] xs = []"
| "chunks (k # ks) xs = take k xs # chunks ks (drop k xs)"





section \<open>Notions used to state the round trip\<close>

text \<open>
  Jointly feasible marginals with common total \<open>n\<close>: the dimension names are distinct (they
  are dictionary keys), every dimension has distinct category values and non-negative
  counts, every dimension that has data sums to \<open>n\<close>, and \<open>n\<close> is the target total that the
  solver computes. The marginals may hold any dimensions, and a dimension may be empty (no
  row for the hour). (With equal totals a consistent joint table always exists.)
\<close>

definition feasible :: "marginals \<Rightarrow> int \<Rightarrow> bool" where
  "feasible m n \<longleftrightarrow>
     distinct (map fst m) \<and> total_events_of m = Inr n \<and>
     (\<forall>(d, t)\<in>set m. distinct (map fst t) \<and> (\<forall>(k, v)\<in>set t. 0 \<le> v)
        \<and> (t \<noteq> [] \<longrightarrow> sum_values t = n))"

text \<open>The category values of a dimension of the marginals.\<close>

definition keys_of :: "marginals \<Rightarrow> string \<Rightarrow> string set" where
  "keys_of m d = set (map fst (get_default m d []))"

text \<open>
  The invariant of the greedy loop for marginals \<open>m\<close> and target \<open>n\<close>: quotas stay between
  0 and the original counts, the events assigned so far and the remaining quota add up to
  the original count, every active dimension has as much quota left as events remain.
\<close>

definition solver_inv :: "marginals \<Rightarrow> string list \<Rightarrow> int \<Rightarrow> assign_state \<Rightarrow> bool" where
  "solver_inv m dn n s \<longleftrightarrow>
     (\<forall>d v. 0 \<le> quota_of (remaining_quotas s) d v) \<and>
     (\<forall>d v. quota_of (remaining_quotas s) d v \<le> quota_of m d v) \<and>
     (\<forall>d\<in>set dn. \<forall>v. int (count_value (events s) d v) + quota_of (remaining_quotas s) d v
                        = quota_of m d v) \<and>
     (\<forall>d\<in>set dn. (\<Sum>v\<in>keys_of m d. quota_of (remaining_quotas s) d v) = remaining_events s) \<and>
     (\<forall>d\<in>set dn. map_of (remaining_quotas s) d \<noteq> None) \<and>
     int (length (events s)) + remaining_events s = n \<and>
     0 \<le> remaining_events s"

definition five_dim_marginals :: marginals where
  "five_dim_marginals =
     [(''pages'', [(''/a'', 2), (''/b'', 1)]), (''browsers'', [(''Chrome'', 3)]),
      (''countries'', [(''US'', 3)]), (''devices'', [(''Desktop'', 1), (''Phone'', 2)]),
      (''referrers'', [(''(direct)'', 3)])]"

text \<open>Five dimensions, two of them without data for the hour.\<close>

definition sparse_marginals :: marginals where
  "sparse_marginals =
     [(''pages'', [(''/a'', 2), (''/b'', 1)]), (''browsers'', [(''Chrome'', 3)]),
      (''countries'', []), (''devices'', []), (''referrers'', [(''(direct)'', 3)])]"

section \<open>Basic facts\<close>

lemma ebind_Inr_iff: "ebind m f = Inr y \<longleftrightarrow> (\<exists>x. m = Inr x \<and> f x = Inr y)"
  by (cases m) (simp_all add: ebind_def)

lemma ebind_Inr [simp]: "ebind (Inr x) f = f x"
  by (simp add: ebind_def)

lemma ebind_Inl [simp]: "ebind (Inl e) f = Inl e"
  by (simp add: ebind_def)

section \<open>The referrers dimension and the synthetic direct category\<close>

text \<open>
  C7. In the Marginal Extractor, when the explicit referrer counts sum to strictly less than
  the site total of pageviews, the referrers marginal holds a \<open>(direct)\<close> category whose
  count is exactly the positive difference, every other category keeping its count; when
  the sum equals or exceeds the site total, the referrers marginal is the explicit one,
  unmodified.
\<close>

theorem referrers_direct_rule:
  assumes "get_marginal_totals py_int hdata = Inr m"
    and "total_pageviews py_int hdata = Inr site_total"
    and "referrer_counts py_int hdata = Inr refs"
  shows "(sum_values refs < site_total \<longrightarrow>
            (\<exists>r. map_of m ''referrers'' = Some r
               \<and> map_of r ''(direct)'' = Some (site_total - sum_values refs)
               \<and> 0 < site_total - sum_values refs
               \<and> (\<forall>k. k \<noteq> ''(direct)'' \<longrightarrow> map_of r k = map_of refs k)))
       \<and> (site_total \<le> sum_values refs \<longrightarrow> map_of m ''referrers'' = Some refs)"
proof -
  from assms have m: "map_of m ''referrers'' = Some (add_direct site_total refs)"
    unfolding get_marginal_totals_def by (auto simp: ebind_Inr_iff)
  show ?thesis
    using m by (auto simp: add_direct_def Let_def update_conv')
qed

theorem referrers_direct_rule_witness:
  "get_marginal_totals (\<lambda>s. if s = ''5'' then Some 5 else if s = ''2'' then Some 2 else None)
      [(''site'', [[(''Timestamp'', ''t''), (''Pageviews'', ''5'')]]),
       (''referrers'', [[(''Referrer Hostname'', ''a.org''), (''Views'', ''2'')]])]
     = Inr [(''pages'', []), (''browsers'', []), (''countries'', []), (''devices'', []),
            (''referrers'', [(''a.org'', 2), (''(direct)'', 3)])]
   \<and> sum_values [(''a.org'', 2::int)] < 5
   \<and> (\<exists>r. map_of [(''pages'', []), (''browsers'', []), (''countries'', []), (''devices'', []),
            (''referrers'', [(''a.org'', 2), (''(direct)'', 3)])] ''referrers'' = Some r
          \<and> map_of r ''(direct)'' = Some (5 - sum_values [(''a.org'', 2::int)]))"
proof -
  let ?py = "\<lambda>s. if s = ''5'' then Some (5::int) else if s = ''2'' then Some 2 else None"
  let ?hd = "[(''site'', [[(''Timestamp'', ''t''), (''Pageviews'', ''5'')]]),
       (''referrers'', [[(''Referrer Hostname'', ''a.org''), (''Views'', ''2'')]])]"
  let ?m = "[(''pages'', []), (''browsers'', []), (''countries'', []), (''devices'', []),
            (''referrers'', [(''a.org'', 2::int), (''(direct)'', 3)])]"
  have t: "total_pageviews ?py ?hd = Inr 5"
    by (simp add: total_pageviews_def get_default_def getitem_def safe_int_def strip_def is_space_def)
  have r: "referrer_counts ?py ?hd = Inr [(''a.org'', 2)]"
    by (simp add: referrer_counts_def get_default_def getitem_def safe_int_def strip_def is_space_def)
  have g: "get_marginal_totals ?py ?hd = Inr ?m"
    unfolding get_marginal_totals_def t r
    by (simp add: get_default_def add_direct_def sum_values_def)
  have s: "sum_values [(''a.org'', 2::int)] < 5" by (simp add: sum_values_def)
  from referrers_direct_rule [OF g t r] s g show ?thesis by blast
qed

section \<open>No active dimension\<close>

lemma assign_loop_no_dims: "\<exists>s'. assign_loop [] cw s = Inr s'"
  by (induction cw arbitrary: s) (auto simp: assign_step_def)

lemma combo_weights_no_dims: "\<exists>cw. combo_weights cs [] wt = Inr cw"
  by (induction cs) auto

text \<open>
  C8 (as amended). With zero active dimensions (every marginal empty) nothing is raised:
  \<open>solve_exact_distribution\<close> returns the empty event list and the empty combination list,
  and the assignment loop itself, called with no dimension, returns an event list too.
\<close>

theorem no_active_dimensions_returns_empty:
  "(active_dimensions m = [] \<longrightarrow> solve_exact_distribution m = Inr ([], []))
   \<and> (\<exists>evs. solve_integer_assignment cs [] m wt n = Inr evs)"
proof
  show "active_dimensions m = [] \<longrightarrow> solve_exact_distribution m = Inr ([], [])"
    by (simp add: solve_exact_distribution_def)
next
  obtain cw where cw: "combo_weights cs [] wt = Inr cw"
    using combo_weights_no_dims by blast
  obtain s' where "assign_loop [] (sort_by_weight cw)
      \<lparr>events = [], remaining_quotas = m, remaining_events = n\<rparr> = Inr s'"
    using assign_loop_no_dims by blast
  with cw show "\<exists>evs. solve_integer_assignment cs [] m wt n = Inr evs"
    by (simp add: solve_integer_assignment_def solve_integer_assignment_state_def)
qed

theorem no_active_dimensions_returns_empty_witness:
  "active_dimensions [(''pages'', []), (''browsers'', [])] = []
   \<and> solve_exact_distribution [(''pages'', []), (''browsers'', [])] = Inr ([], [])"
proof -
  have a: "active_dimensions [(''pages'', []), (''browsers'', [])] = []"
    by (simp add: active_dimensions_def)
  from no_active_dimensions_returns_empty [of "[(''pages'', []), (''browsers'', [])]"] a
  show ?thesis by blast
qed

theorem no_active_dimensions_counterexample:
  "active_dimensions no_active_marginals = []
   \<and> \<not> (\<exists>e. solve_exact_distribution no_active_marginals = Inl e)"
  by (simp add: no_active_marginals_def dimension_names_def active_dimensions_def
      solve_exact_distribution_def)

section \<open>The feasible scenario\<close>

text \<open>
  C2. For the marginals pages \<open>{/a: 3, /b: 2}\<close>, browsers \<open>{Chrome: 4, Safari: 1}\<close> the
  target total is 5, the solver returns exactly 5 events, their recount per dimension is
  the input marginals, and at the end of the assignment every remaining quota is 0 and no
  event remains to assign.
\<close>

theorem feasible_scenario_exact:
  "total_events_of feasible_marginals = Inr 5
   \<and> run_ipf_for_weights feasible_marginals =
       Inr ([([''/a'', ''Chrome''], 12 / 25), ([''/a'', ''Safari''], 3 / 25),
             ([''/b'', ''Chrome''], 8 / 25), ([''/b'', ''Safari''], 2 / 25)],
            None, [''pages'', ''browsers''])
   \<and> solve_integer_assignment_state (all_combinations feasible_marginals)
         [''pages'', ''browsers''] feasible_marginals
         [([''/a'', ''Chrome''], 12 / 25), ([''/a'', ''Safari''], 3 / 25),
          ([''/b'', ''Chrome''], 8 / 25), ([''/b'', ''Safari''], 2 / 25)] 5 =
       Inr \<lparr>events =
              [[(''pages'', ''/a''), (''browsers'', ''Chrome'')],
               [(''pages'', ''/a''), (''browsers'', ''Chrome'')],
               [(''pages'', ''/a''), (''browsers'', ''Chrome'')],
               [(''pages'', ''/b''), (''browsers'', ''Chrome'')],
               [(''pages'', ''/b''), (''browsers'', ''Safari'')]],
            remaining_quotas =
              [(''pages'', [(''/a'', 0), (''/b'', 0)]),
               (''browsers'', [(''Chrome'', 0), (''Safari'', 0)])],
            remaining_events = 0\<rparr>
   \<and> (\<exists>evs combos. solve_exact_distribution feasible_marginals = Inr (evs, combos)
          \<and> length evs = 5
          \<and> recount [''pages'', ''browsers''] evs = Inr feasible_marginals)"
proof -
  have 1: "total_events_of feasible_marginals = Inr 5"
    by code_simp
  have 2: "run_ipf_for_weights feasible_marginals =
       Inr ([([''/a'', ''Chrome''], 12 / 25), ([''/a'', ''Safari''], 3 / 25),
             ([''/b'', ''Chrome''], 8 / 25), ([''/b'', ''Safari''], 2 / 25)],
            None, [''pages'', ''browsers''])"
    by code_simp
  have 3: "solve_integer_assignment_state (all_combinations feasible_marginals)
         [''pages'', ''browsers''] feasible_marginals
         [([''/a'', ''Chrome''], 12 / 25), ([''/a'', ''Safari''], 3 / 25),
          ([''/b'', ''Chrome''], 8 / 25), ([''/b'', ''Safari''], 2 / 25)] 5 =
       Inr \<lparr>events =
              [[(''pages'', ''/a''), (''browsers'', ''Chrome'')],
               [(''pages'', ''/a''), (''browsers'', ''Chrome'')],
               [(''pages'', ''/a''), (''browsers'', ''Chrome'')],
               [(''pages'', ''/b''), (''browsers'', ''Chrome'')],
               [(''pages'', ''/b''), (''browsers'', ''Safari'')]],
            remaining_quotas =
              [(''pages'', [(''/a'', 0), (''/b'', 0)]),
               (''browsers'', [(''Chrome'', 0), (''Safari'', 0)])],
            remaining_events = 0\<rparr>"
    by code_simp
  have 4: "solve_exact_distribution feasible_marginals =
       Inr ([[(''pages'', ''/a''), (''browsers'', ''Chrome'')],
             [(''pages'', ''/a''), (''browsers'', ''Chrome'')],
             [(''pages'', ''/a''), (''browsers'', ''Chrome'')],
             [(''pages'', ''/b''), (''browsers'', ''Chrome'')],
             [(''pages'', ''/b''), (''browsers'', ''Safari'')]],
            all_combinations feasible_marginals)"
    by code_simp
  have 5: "recount [''pages'', ''browsers'']
             [[(''pages'', ''/a''), (''browsers'', ''Chrome'')],
              [(''pages'', ''/a''), (''browsers'', ''Chrome'')],
              [(''pages'', ''/a''), (''browsers'', ''Chrome'')],
              [(''pages'', ''/b''), (''browsers'', ''Chrome'')],
              [(''pages'', ''/b''), (''browsers'', ''Safari'')]] = Inr feasible_marginals"
    by code_simp
  from 4 5 have "\<exists>evs combos. solve_exact_distribution feasible_marginals = Inr (evs, combos)
          \<and> length evs = 5 \<and> recount [''pages'', ''browsers''] evs = Inr feasible_marginals"
    by simp
  with 1 2 3 show ?thesis by blast
qed

section \<open>The infeasible scenario\<close>

text \<open>
  C3. For the marginals pages \<open>{/a: 3}\<close>, browsers \<open>{Chrome: 1, Safari: 1}\<close> the target total
  is 3; the solver raises nothing and returns 2 events, one event stays unassigned and the
  quota of \<open>/a\<close> keeps 1 (so the caller sees fewer events than the target), and the recount
  of the browsers is \<open>{Chrome: 1, Safari: 1}\<close>, not more.
\<close>

theorem infeasible_scenario_partial:
  "total_events_of infeasible_marginals = Inr 3
   \<and> run_ipf_for_weights infeasible_marginals =
       Inr ([([''/a'', ''Chrome''], 1 / 3), ([''/a'', ''Safari''], 1 / 3)],
            None, [''pages'', ''browsers''])
   \<and> solve_integer_assignment_state (all_combinations infeasible_marginals)
         [''pages'', ''browsers''] infeasible_marginals
         [([''/a'', ''Chrome''], 1 / 3), ([''/a'', ''Safari''], 1 / 3)] 3 =
       Inr \<lparr>events =
              [[(''pages'', ''/a''), (''browsers'', ''Chrome'')],
               [(''pages'', ''/a''), (''browsers'', ''Safari'')]],
            remaining_quotas =
              [(''pages'', [(''/a'', 1)]), (''browsers'', [(''Chrome'', 0), (''Safari'', 0)])],
            remaining_events = 1\<rparr>
   \<and> (\<exists>evs combos. solve_exact_distribution infeasible_marginals = Inr (evs, combos)
          \<and> length evs = 2 \<and> int (length evs) < 3
          \<and> recount [''pages'', ''browsers''] evs =
              Inr [(''pages'', [(''/a'', 2)]), (''browsers'', [(''Chrome'', 1), (''Safari'', 1)])])"
proof -
  have 1: "total_events_of infeasible_marginals = Inr 3"
    by code_simp
  have 2: "run_ipf_for_weights infeasible_marginals =
       Inr ([([''/a'', ''Chrome''], 1 / 3), ([''/a'', ''Safari''], 1 / 3)],
            None, [''pages'', ''browsers''])"
    by code_simp
  have 3: "solve_integer_assignment_state (all_combinations infeasible_marginals)
         [''pages'', ''browsers''] infeasible_marginals
         [([''/a'', ''Chrome''], 1 / 3), ([''/a'', ''Safari''], 1 / 3)] 3 =
       Inr \<lparr>events =
              [[(''pages'', ''/a''), (''browsers'', ''Chrome'')],
               [(''pages'', ''/a''), (''browsers'', ''Safari'')]],
            remaining_quotas =
              [(''pages'', [(''/a'', 1)]), (''browsers'', [(''Chrome'', 0), (''Safari'', 0)])],
            remaining_events = 1\<rparr>"
    by code_simp
  have 4: "solve_exact_distribution infeasible_marginals =
       Inr ([[(''pages'', ''/a''), (''browsers'', ''Chrome'')],
             [(''pages'', ''/a''), (''browsers'', ''Safari'')]],
            all_combinations infeasible_marginals)"
    by code_simp
  have 5: "recount [''pages'', ''browsers'']
             [[(''pages'', ''/a''), (''browsers'', ''Chrome'')],
              [(''pages'', ''/a''), (''browsers'', ''Safari'')]] =
           Inr [(''pages'', [(''/a'', 2)]), (''browsers'', [(''Chrome'', 1), (''Safari'', 1)])]"
    by code_simp
  from 4 5 have "\<exists>evs combos. solve_exact_distribution infeasible_marginals = Inr (evs, combos)
          \<and> length evs = 2 \<and> int (length evs) < 3
          \<and> recount [''pages'', ''browsers''] evs =
              Inr [(''pages'', [(''/a'', 2)]), (''browsers'', [(''Chrome'', 1), (''Safari'', 1)])]"
    by simp
  with 1 2 3 show ?thesis by blast
qed

section \<open>Constraint applications and sweeps of the weight estimator\<close>

lemma tuple_get_Inr_iff: "tuple_get c i = Inr v \<longleftrightarrow> i < length c \<and> c ! i = v"
  by (auto simp: tuple_get_def)

lemma get_default_update:
  "get_default (AList.update k x al) k' d = (if k' = k then x else get_default al k' d)"
  by (simp add: get_default_def update_conv')

lemma current_marginals_aggregate:
  "current_marginals tbl i cm0 = Inr cm \<Longrightarrow>
   get_default cm v 0 = get_default cm0 v 0 + aggregate tbl i v"
proof (induction tbl arbitrary: cm0)
  case Nil
  then show ?case by (simp add: aggregate_def)
next
  case (Cons x tbl)
  obtain c p where x: "x = (c, p)" by (cases x)
  from Cons.prems x obtain w where w: "tuple_get c i = Inr w"
    and r: "current_marginals tbl i (AList.update w (get_default cm0 w 0 + p) cm0) = Inr cm"
    by (auto simp: ebind_Inr_iff)
  from Cons.IH [OF r] w x show ?case
    by (auto simp: get_default_update aggregate_def)
qed

lemma adjust_result:
  "adjust tbl i cm mt = Inr tbl' \<Longrightarrow>
   list_all2 (\<lambda>x y. fst y = fst x \<and> (snd x = 0 \<longrightarrow> snd y = 0)
      \<and> (\<forall>v. tuple_get (fst x) i = Inr v \<longrightarrow> get_default cm v 0 \<le> 0 \<longrightarrow> snd y = 0)) tbl tbl'"
proof (induction tbl arbitrary: tbl')
  case Nil
  then show ?case by simp
next
  case (Cons x tbl)
  obtain c p where x: "x = (c, p)" by (cases x)
  from Cons.prems x obtain w r where w: "tuple_get c i = Inr w"
    and r: "adjust tbl i cm mt = Inr r"
    and t: "tbl' = (c, if get_default cm w 0 > 0 then p * (get_default mt w 0 / get_default cm w 0) else 0) # r"
    by (auto simp: ebind_Inr_iff Let_def)
  from Cons.IH [OF r] w x t show ?case by auto
qed


lemma apply_simple_result:
  assumes "apply_marginal_constraint_simple tbl dn d mt = Inr tbl'"
    and "list_index dn d = Inr i"
  shows "list_all2 (\<lambda>x y. fst y = fst x \<and> (snd x = 0 \<longrightarrow> snd y = 0)
      \<and> (\<forall>v. tuple_get (fst x) i = Inr v \<longrightarrow> aggregate tbl i v \<le> 0 \<longrightarrow> snd y = 0)) tbl tbl'"
proof -
  from assms obtain cm where cm: "current_marginals tbl i [] = Inr cm"
    and a: "adjust tbl i cm mt = Inr tbl'"
    by (auto simp: apply_marginal_constraint_simple_def ebind_Inr_iff)
  have "get_default cm v 0 = aggregate tbl i v" for v
    using current_marginals_aggregate [OF cm, of v] by (simp add: get_default_def)
  with adjust_result [OF a] show ?thesis by simp
qed

lemma apply_simple_zeros_kept:
  assumes "apply_marginal_constraint_simple tbl dn d mt = Inr tbl'"
  shows "zeros_kept tbl tbl'"
proof -
  from assms obtain i where i: "list_index dn d = Inr i"
    by (auto simp: apply_marginal_constraint_simple_def ebind_Inr_iff)
  from apply_simple_result [OF assms i] show ?thesis
    unfolding zeros_kept_def by (rule list_all2_mono) simp
qed

lemma zeros_kept_refl: "zeros_kept tbl tbl"
  by (simp add: zeros_kept_def list_all2_refl)

lemma zeros_kept_trans:
  assumes "zeros_kept a b" and "zeros_kept b c"
  shows "zeros_kept a c"
  using assms unfolding zeros_kept_def
  by (rule list_all2_trans [rotated]) auto

lemma sweep_zeros_kept: "sweep ds dn nm tbl = Inr tbl' \<Longrightarrow> zeros_kept tbl tbl'"
proof (induction ds arbitrary: tbl)
  case Nil
  then show ?case by (simp add: zeros_kept_refl)
next
  case (Cons d ds)
  show ?case
  proof (cases "map_of nm d")
    case None
    with Cons show ?thesis by simp
  next
    case (Some mt)
    with Cons.prems obtain t1 where 1: "apply_marginal_constraint_simple tbl dn d mt = Inr t1"
      and 2: "sweep ds dn nm t1 = Inr tbl'"
      by (auto simp: ebind_Inr_iff)
    from apply_simple_zeros_kept [OF 1] Cons.IH [OF 2] show ?thesis
      by (rule zeros_kept_trans)
  qed
qed

lemma ipf_loop_zeros_kept: "ipf_loop n dn nm tbl = Inr (tbl', k) \<Longrightarrow> zeros_kept tbl tbl'"
proof (induction n arbitrary: tbl k)
  case 0
  then show ?case by (simp add: zeros_kept_refl)
next
  case (Suc n)
  from Suc.prems obtain t1 where 1: "sweep dn dn nm t1 = Inr t1 \<or> True"
    and s: "sweep dn dn nm tbl = Inr t1"
    and r: "(total_change t1 tbl < 1 / 10 ^ 8 \<and> tbl' = t1) \<or>
            (\<exists>k'. ipf_loop n dn nm t1 = Inr (tbl', k'))"
    by (auto simp: ebind_Inr_iff split: if_splits)
  from r show ?case
  proof
    assume "total_change t1 tbl < 1 / 10 ^ 8 \<and> tbl' = t1"
    with sweep_zeros_kept [OF s] show ?thesis by simp
  next
    assume "\<exists>k'. ipf_loop n dn nm t1 = Inr (tbl', k')"
    then obtain k' where "ipf_loop n dn nm t1 = Inr (tbl', k')" ..
    from sweep_zeros_kept [OF s] Suc.IH [OF this] show ?thesis
      by (rule zeros_kept_trans)
  qed
qed

lemma ipf_loop_sweeps:
  "ipf_loop n dn nm tbl = Inr (tbl', k) \<Longrightarrow>
   k \<le> n \<and> (k < n \<longrightarrow> (\<exists>prev. sweep dn dn nm prev = Inr tbl' \<and> total_change tbl' prev < 1 / 10 ^ 8))"
proof (induction n arbitrary: tbl k)
  case 0
  then show ?case by simp
next
  case (Suc n)
  from Suc.prems obtain t1 where s: "sweep dn dn nm tbl = Inr t1"
    and r: "(total_change t1 tbl < 1 / 10 ^ 8 \<and> tbl' = t1 \<and> k = 1) \<or>
            (\<not> total_change t1 tbl < 1 / 10 ^ 8 \<and> (\<exists>k'. ipf_loop n dn nm t1 = Inr (tbl', k') \<and> k = Suc k'))"
    by (auto simp: ebind_Inr_iff split: if_splits)
  from r show ?case
  proof
    assume "total_change t1 tbl < 1 / 10 ^ 8 \<and> tbl' = t1 \<and> k = 1"
    with s show ?thesis by auto
  next
    assume "\<not> total_change t1 tbl < 1 / 10 ^ 8 \<and> (\<exists>k'. ipf_loop n dn nm t1 = Inr (tbl', k') \<and> k = Suc k')"
    then obtain k' where l: "ipf_loop n dn nm t1 = Inr (tbl', k')" and k: "k = Suc k'" by blast
    from Suc.IH [OF l] k show ?thesis by auto
  qed
qed

lemma list_index_mem: "x \<in> set xs \<Longrightarrow> \<exists>i. list_index xs x = Inr i \<and> i < length xs"
  by (induction xs) (auto simp: ebind_Inr_iff)

lemma current_marginals_ok:
  "\<forall>x\<in>set tbl. i < length (fst x) \<Longrightarrow> \<exists>cm. current_marginals tbl i cm0 = Inr cm"
  by (induction tbl arbitrary: cm0) (auto simp: ebind_Inr_iff tuple_get_def)

lemma adjust_ok:
  "\<forall>x\<in>set tbl. i < length (fst x) \<Longrightarrow> \<exists>t'. adjust tbl i cm mt = Inr t'"
  by (induction tbl) (auto simp: ebind_Inr_iff tuple_get_def Let_def)

lemma zeros_kept_keys: "zeros_kept tbl tbl' \<Longrightarrow> map fst tbl' = map fst tbl"
  unfolding zeros_kept_def
  by (induction rule: list_all2_induct) auto

lemma apply_simple_ok:
  assumes "d \<in> set dn" and "\<forall>x\<in>set tbl. length (fst x) = length dn"
  shows "\<exists>t'. apply_marginal_constraint_simple tbl dn d mt = Inr t'"
proof -
  from list_index_mem [OF assms(1)] obtain i where i: "list_index dn d = Inr i" "i < length dn"
    by blast
  with assms(2) have l: "\<forall>x\<in>set tbl. i < length (fst x)" by simp
  from current_marginals_ok [OF l] obtain cm where cm: "current_marginals tbl i [] = Inr cm"
    by blast
  from adjust_ok [OF l] obtain t' where "adjust tbl i cm mt = Inr t'" by blast
  with i cm show ?thesis
    by (auto simp: apply_marginal_constraint_simple_def)
qed

lemma keys_length_kept:
  "zeros_kept tbl tbl' \<Longrightarrow> \<forall>x\<in>set tbl. length (fst x) = n \<Longrightarrow> \<forall>x\<in>set tbl'. length (fst x) = n"
proof -
  assume z: "zeros_kept tbl tbl'" and l: "\<forall>x\<in>set tbl. length (fst x) = n"
  from zeros_kept_keys [OF z] have "fst ` set tbl' = fst ` set tbl"
    by (metis set_map)
  with l show ?thesis by force
qed

lemma sweep_ok:
  "set ds \<subseteq> set dn \<Longrightarrow> \<forall>x\<in>set tbl. length (fst x) = length dn \<Longrightarrow>
   \<exists>t'. sweep ds dn nm tbl = Inr t'"
proof (induction ds arbitrary: tbl)
  case Nil
  then show ?case by simp
next
  case (Cons d ds)
  show ?case
  proof (cases "map_of nm d")
    case None
    with Cons show ?thesis by simp
  next
    case (Some mt)
    from Cons.prems have d: "d \<in> set dn" by simp
    from apply_simple_ok [OF d Cons.prems(2)] obtain t1
      where 1: "apply_marginal_constraint_simple tbl dn d mt = Inr t1" by blast
    from keys_length_kept [OF apply_simple_zeros_kept [OF 1] Cons.prems(2)]
    have "\<forall>x\<in>set t1. length (fst x) = length dn" .
    from Cons.IH [OF _ this] Cons.prems(1) obtain t' where "sweep ds dn nm t1 = Inr t'" by auto
    with Some 1 show ?thesis by simp
  qed
qed

lemma ipf_loop_ok:
  "\<forall>x\<in>set tbl. length (fst x) = length dn \<Longrightarrow> \<exists>t' k. ipf_loop n dn nm tbl = Inr (t', k)"
proof (induction n arbitrary: tbl)
  case 0
  then show ?case by simp
next
  case (Suc n)
  from sweep_ok [OF subset_refl Suc.prems] obtain t1 where s: "sweep dn dn nm tbl = Inr t1"
    by blast
  from keys_length_kept [OF sweep_zeros_kept [OF s] Suc.prems]
  have "\<forall>x\<in>set t1. length (fst x) = length dn" .
  from Suc.IH [OF this] obtain t' k where "ipf_loop n dn nm t1 = Inr (t', k)" by blast
  with s show ?case by simp
qed

lemma uniform_table_keys: "map fst (uniform_table cs) = cs"
  by (simp add: uniform_table_def Let_def comp_def case_prod_beta)

lemma py_max_ok: "xs \<noteq> [] \<Longrightarrow> \<exists>x. py_max xs = Inr x"
  by (cases xs) auto

lemma normalize_totals_ok: "te \<noteq> 0 \<Longrightarrow> \<exists>r. normalize_totals t te = Inr r"
  by (induction t te rule: normalize_totals.induct) (auto simp: py_truediv_def)

lemma normalize_marginals_ok: "te \<noteq> 0 \<Longrightarrow> \<exists>r. normalize_marginals m te = Inr r"
proof (induction m te rule: normalize_marginals.induct)
  case (1 te)
  then show ?case by simp
next
  case (2 d t m te)
  from normalize_totals_ok [OF "2.prems"] obtain nt where "normalize_totals t te = Inr nt" by blast
  with 2 show ?case by auto
qed

lemma run_ipf_sweeps_ok:
  assumes "m \<noteq> []" and "total_events_of m \<noteq> Inr 0"
  shows "\<exists>tbl k. run_ipf_sweeps m = Inr (tbl, k) \<and> k \<le> 50"
proof -
  from assms(1) obtain te where te: "total_events_of m = Inr te"
    unfolding total_events_of_def using py_max_ok [of "map (\<lambda>(d, t). sum_values t) m"] by auto
  with assms(2) have "te \<noteq> 0" by auto
  from normalize_marginals_ok [OF this] obtain nm where nm: "normalize_marginals m te = Inr nm"
    by blast
  let ?dn = "map fst (active_dimensions m)"
  let ?tbl = "uniform_table (product_lists (map snd (active_dimensions m)))"
  have "\<forall>c\<in>set (map fst ?tbl). length c = length ?dn"
    unfolding uniform_table_keys by (auto dest: in_set_product_lists_length)
  then have "\<forall>x\<in>set ?tbl. length (fst x) = length ?dn" by simp
  from ipf_loop_ok [OF this] obtain t' k where l: "ipf_loop 50 ?dn nm ?tbl = Inr (t', k)"
    by blast
  from ipf_loop_sweeps [OF l] have "k \<le> 50" by simp
  with l te nm show ?thesis
    by (auto simp: run_ipf_sweeps_def Let_def)
qed

subsection \<open>Zero weights are absorbing\<close>

text \<open>
  C5. In a constraint application (of exact\_ipf and of simple\_ipf alike), when the current
  aggregated weight of a category value is zero, every combination that holds the value
  gets weight zero; and a combination whose weight is zero keeps weight zero through every
  later constraint application, every sweep and the whole iteration: a zero is never revived.
\<close>

theorem zero_weight_absorbing:
  "(list_index dn d = Inr i \<and>
      (apply_marginal_constraint_simple tbl dn d mt = Inr tbl'
       \<or> apply_marginal_constraint tbl dn d mt = Inr tbl') \<longrightarrow>
      length tbl' = length tbl \<and>
      (\<forall>j<length tbl. \<forall>v. tuple_get (fst (tbl ! j)) i = Inr v \<and> aggregate tbl i v = 0
          \<longrightarrow> snd (tbl' ! j) = 0))
   \<and> (apply_marginal_constraint_simple tbl dn d mt = Inr tbl' \<longrightarrow> zeros_kept tbl tbl')
   \<and> (apply_marginal_constraint tbl dn d mt = Inr tbl' \<longrightarrow> zeros_kept tbl tbl')
   \<and> (sweep ds dn nm tbl = Inr tbl' \<longrightarrow> zeros_kept tbl tbl')
   \<and> (ipf_loop n dn nm tbl = Inr (tbl', k) \<longrightarrow> zeros_kept tbl tbl')"
proof -
  have simple: "apply_marginal_constraint_simple tbl dn d mt = Inr tbl'"
    if "list_index dn d = Inr i" and "apply_marginal_constraint tbl dn d mt = Inr tbl'"
  proof -
    from that(1) have "d \<in> set dn"
      by (induction dn arbitrary: i) (auto simp: ebind_Inr_iff split: if_splits)
    with that(2) show ?thesis by (simp add: apply_marginal_constraint_def)
  qed
  have 1: "length tbl' = length tbl \<and>
      (\<forall>j<length tbl. \<forall>v. tuple_get (fst (tbl ! j)) i = Inr v \<and> aggregate tbl i v = 0
          \<longrightarrow> snd (tbl' ! j) = 0)"
    if i: "list_index dn d = Inr i" and a: "apply_marginal_constraint_simple tbl dn d mt = Inr tbl'"
  proof -
    note r = apply_simple_result [OF a i]
    from r have "length tbl' = length tbl" by (simp add: list_all2_lengthD)
    moreover have "snd (tbl' ! j) = 0"
      if "j < length tbl" and "tuple_get (fst (tbl ! j)) i = Inr v" and "aggregate tbl i v = 0"
      for j v
      using list_all2_nthD [OF r that(1)] that(2,3) by simp
    ultimately show ?thesis by blast
  qed
  have 3: "zeros_kept tbl tbl'" if "apply_marginal_constraint tbl dn d mt = Inr tbl'"
    using that apply_simple_zeros_kept [of tbl dn d mt tbl']
    by (auto simp: apply_marginal_constraint_def zeros_kept_refl split: if_splits)
  from 1 simple 3 apply_simple_zeros_kept [of tbl dn d mt tbl']
    sweep_zeros_kept [of ds dn nm tbl tbl'] ipf_loop_zeros_kept [of n dn nm tbl tbl' k]
  show ?thesis by blast
qed

theorem zero_weight_absorbing_witness:
  "list_index [''pages''] ''pages'' = Inr 0
   \<and> apply_marginal_constraint_simple [([''/a''], 0), ([''/b''], 1)] [''pages''] ''pages''
        [(''/a'', 1 / 2), (''/b'', 1 / 2)] = Inr [([''/a''], 0), ([''/b''], 1 / 2)]
   \<and> tuple_get (fst ([([''/a''], 0), ([''/b''], 1)] ! 0)) 0 = Inr ''/a''
   \<and> aggregate [([''/a''], 0), ([''/b''], 1)] 0 ''/a'' = 0
   \<and> snd ([([''/a''], 0), ([''/b''], 1 / 2 :: real)] ! 0) = 0
   \<and> zeros_kept [([''/a''], 0), ([''/b''], 1)] [([''/a''], 0), ([''/b''], 1 / 2)]"
proof -
  have i: "list_index [''pages''] ''pages'' = Inr 0" by simp
  have a: "apply_marginal_constraint_simple [([''/a''], 0), ([''/b''], 1)] [''pages''] ''pages''
        [(''/a'', 1 / 2), (''/b'', 1 / 2)] = Inr [([''/a''], 0), ([''/b''], 1 / 2)]"
    by code_simp
  have t: "tuple_get (fst ([([''/a''], 0 :: real), ([''/b''], 1)] ! 0)) 0 = Inr ''/a''"
    by (simp add: tuple_get_def)
  have g: "aggregate [([''/a''], 0), ([''/b''], 1)] 0 ''/a'' = 0"
    by (simp add: aggregate_def tuple_get_def)
  from zero_weight_absorbing [of "[''pages'']" "''pages''" 0 "[([''/a''], 0), ([''/b''], 1)]"
      "[(''/a'', 1 / 2), (''/b'', 1 / 2)]" "[([''/a''], 0), ([''/b''], 1 / 2)]"] i a t g
  show ?thesis by simp
qed

subsection \<open>The iteration is bounded\<close>


lemma ipf_loop_stops:
  "sweep dn dn nm t0 = Inr t1 \<Longrightarrow> total_change t1 t0 < 1 / 10 ^ 8 \<Longrightarrow>
   ipf_loop (Suc n) dn nm t0 = Inr (t1, 1)"
  by simp






section \<open>The greedy assignment never over-allocates\<close>

lemma getitem_Inr_iff: "getitem al k = Inr v \<longleftrightarrow> map_of al k = Some v"
  by (simp add: getitem_def split: option.splits)

lemma quota_of_update:
  "map_of q d = Some t \<Longrightarrow>
   quota_of (AList.update d (AList.update v x t) q) d' v' =
     (if d' = d \<and> v' = v then x else quota_of q d' v')"
  by (simp add: quota_of_def get_default_update) (simp add: get_default_def)

lemma quota_of_pos_key:
  "0 < quota_of q d v \<Longrightarrow> \<exists>t n. map_of q d = Some t \<and> map_of t v = Some n"
  by (auto simp: quota_of_def get_default_def split: option.splits)

lemma quota_of_Some:
  "map_of q d = Some t \<Longrightarrow> quota_of q d v = get_default t v 0"
  by (simp add: quota_of_def get_default_def)

subsection \<open>The loop that computes the assignable count\<close>

lemma max_assignable_le:
  "max_assignable ds c q a = Inr a' \<Longrightarrow>
   a' \<le> a \<and> (\<forall>d\<in>set ds. \<exists>v. map_of c d = Some v \<and> a' \<le> quota_of q d v)"
proof (induction ds arbitrary: a)
  case Nil
  then show ?case by simp
next
  case (Cons d ds)
  from Cons.prems obtain v t where v: "map_of c d = Some v" and t: "map_of q d = Some t"
    and r: "max_assignable ds c q (min a (get_default t v 0)) = Inr a'"
    by (auto simp: ebind_Inr_iff getitem_Inr_iff)
  from Cons.IH [OF r] v t show ?case
    by (auto simp: quota_of_Some)
qed

lemma max_assignable_attained:
  "max_assignable ds c q a = Inr a' \<Longrightarrow>
   a' = a \<or> (\<exists>d\<in>set ds. \<exists>v. map_of c d = Some v \<and> a' = quota_of q d v)"
proof (induction ds arbitrary: a)
  case Nil
  then show ?case by simp
next
  case (Cons d ds)
  from Cons.prems obtain v t where v: "map_of c d = Some v" and t: "map_of q d = Some t"
    and r: "max_assignable ds c q (min a (get_default t v 0)) = Inr a'"
    by (auto simp: ebind_Inr_iff getitem_Inr_iff)
  from Cons.IH [OF r] v t show ?case
    by (auto simp: quota_of_Some min_def split: if_splits)
qed

lemma max_assignable_ok:
  "\<forall>d\<in>set ds. map_of c d \<noteq> None \<and> map_of q d \<noteq> None \<Longrightarrow> \<exists>a'. max_assignable ds c q a = Inr a'"
  by (induction ds arbitrary: a) (auto simp: getitem_def)

subsection \<open>The loop that decrements the quotas\<close>

lemma decrement_quotas_effect:
  "distinct ds \<Longrightarrow> decrement_quotas ds c a q = Inr q' \<Longrightarrow>
   quota_of q' d v = quota_of q d v - (if d \<in> set ds \<and> map_of c d = Some v then a else 0)"
proof (induction ds arbitrary: q)
  case Nil
  then show ?case by simp
next
  case (Cons x ds)
  from Cons.prems obtain w t n where w: "map_of c x = Some w" and t: "map_of q x = Some t"
    and n: "map_of t w = Some n"
    and r: "decrement_quotas ds c a (AList.update x (AList.update w (n - a) t) q) = Inr q'"
    by (auto simp: ebind_Inr_iff getitem_Inr_iff)
  from Cons.prems have dist: "distinct ds" and x: "x \<notin> set ds" by auto
  from n t have qn: "quota_of q x w = n" by (simp add: quota_of_Some get_default_def)
  from Cons.IH [OF dist r] show ?case
    using w x qn by (auto simp: quota_of_update [OF t])
qed

lemma decrement_quotas_dom:
  "decrement_quotas ds c a q = Inr q' \<Longrightarrow> map_of q d \<noteq> None \<Longrightarrow> map_of q' d \<noteq> None"
proof (induction ds arbitrary: q)
  case Nil
  then show ?case by simp
next
  case (Cons x ds)
  from Cons.prems(1) obtain w t n where 
    r: "decrement_quotas ds c a (AList.update x (AList.update w (n - a) t) q) = Inr q'"
    by (auto simp: ebind_Inr_iff getitem_Inr_iff)
  from Cons.IH [OF r] Cons.prems(2) show ?case by (simp add: update_conv')
qed

lemma decrement_quotas_ok:
  "distinct ds \<Longrightarrow> \<forall>d\<in>set ds. \<exists>v. map_of c d = Some v \<and> 0 < quota_of q d v \<Longrightarrow>
   \<exists>q'. decrement_quotas ds c a q = Inr q'"
proof (induction ds arbitrary: q)
  case Nil
  then show ?case by simp
next
  case (Cons x ds)
  from Cons.prems obtain w where w: "map_of c x = Some w" and p: "0 < quota_of q x w" by auto
  from quota_of_pos_key [OF p] obtain t n where t: "map_of q x = Some t" and n: "map_of t w = Some n"
    by blast
  let ?q1 = "AList.update x (AList.update w (n - a) t) q"
  from Cons.prems have dist: "distinct ds" and x: "x \<notin> set ds" by auto
  have "\<forall>d\<in>set ds. \<exists>v. map_of c d = Some v \<and> 0 < quota_of ?q1 d v"
    using Cons.prems(2) x by (auto simp: quota_of_update [OF t])
  from Cons.IH [OF dist this] obtain q' where "decrement_quotas ds c a ?q1 = Inr q'" by blast
  with w t n show ?case by (auto simp: getitem_def)
qed

subsection \<open>One step of the greedy loop, and the loop\<close>

lemma count_value_append_replicate:
  "count_value (evs @ replicate k c) d v = count_value evs d v + (if map_of c d = Some v then k else 0)"
  by (simp add: count_value_def)

lemma assign_step_effect:
  assumes "distinct dn" and "assign_step dn c s = Inr s'"
  shows "\<exists>a ma. max_assignable dn c (remaining_quotas s) (remaining_events s) = Inr ma
      \<and> a = max 0 ma
      \<and> (\<forall>d v. quota_of (remaining_quotas s') d v =
            quota_of (remaining_quotas s) d v - (if d \<in> set dn \<and> map_of c d = Some v then a else 0))
      \<and> events s' = events s @ replicate (nat a) c
      \<and> remaining_events s' = remaining_events s - a"
proof -
  from assms(2) obtain ma where ma: "max_assignable dn c (remaining_quotas s) (remaining_events s) = Inr ma"
    and r: "(if ma > 0 then
         ebind (decrement_quotas dn c ma (remaining_quotas s)) (\<lambda>q.
           Inr \<lparr>events = events s @ replicate (nat ma) c, remaining_quotas = q,
                remaining_events = remaining_events s - ma\<rparr>)
       else Inr s) = Inr s'"
    by (auto simp: assign_step_def ebind_Inr_iff)
  show ?thesis
  proof (cases "ma > 0")
    case True
    with r obtain q where q: "decrement_quotas dn c ma (remaining_quotas s) = Inr q"
      and s': "s' = \<lparr>events = events s @ replicate (nat ma) c, remaining_quotas = q,
                remaining_events = remaining_events s - ma\<rparr>"
      by (auto simp: ebind_Inr_iff)
    from decrement_quotas_effect [OF assms(1) q] s' True ma show ?thesis
      by (auto simp: max_def)
  next
    case False
    with r have "s' = s" by simp
    with False ma show ?thesis by (auto simp: max_def)
  qed
qed


lemma assign_step_inv:
  assumes dn: "distinct dn" and st: "assign_step dn c s = Inr s'"
    and nn: "\<forall>d v. 0 \<le> quota_of (remaining_quotas s) d v"
  shows "(\<forall>d v. 0 \<le> quota_of (remaining_quotas s') d v)"
    and "(\<forall>d v. quota_of (remaining_quotas s') d v \<le> quota_of (remaining_quotas s) d v)"
    and "(\<forall>d\<in>set dn. \<forall>v. int (count_value (events s') d v) + quota_of (remaining_quotas s') d v
            = int (count_value (events s) d v) + quota_of (remaining_quotas s) d v)"
    and "int (length (events s')) + remaining_events s' = int (length (events s)) + remaining_events s"
proof -
  from assign_step_effect [OF dn st] obtain a ma where
    ma: "max_assignable dn c (remaining_quotas s) (remaining_events s) = Inr ma"
    and a: "a = max 0 ma"
    and q: "\<And>d v. quota_of (remaining_quotas s') d v =
            quota_of (remaining_quotas s) d v - (if d \<in> set dn \<and> map_of c d = Some v then a else 0)"
    and e: "events s' = events s @ replicate (nat a) c"
    and r: "remaining_events s' = remaining_events s - a"
    by blast
  from a have a0: "0 \<le> a" by simp
  note le = max_assignable_le [OF ma]
  show "\<forall>d v. 0 \<le> quota_of (remaining_quotas s') d v"
  proof (intro allI)
    fix d v
    show "0 \<le> quota_of (remaining_quotas s') d v"
    proof (cases "d \<in> set dn \<and> map_of c d = Some v")
      case True
      with le have "ma \<le> quota_of (remaining_quotas s) d v" by auto
      with nn a have "a \<le> quota_of (remaining_quotas s) d v" by (simp add: max_def)
      with True show ?thesis by (simp add: q)
    next
      case False
      then have "quota_of (remaining_quotas s') d v = quota_of (remaining_quotas s) d v"
        by (auto simp: q)
      with nn show ?thesis by simp
    qed
  qed
  show "\<forall>d v. quota_of (remaining_quotas s') d v \<le> quota_of (remaining_quotas s) d v"
    using a0 by (simp add: q)
  show "\<forall>d\<in>set dn. \<forall>v. int (count_value (events s') d v) + quota_of (remaining_quotas s') d v
            = int (count_value (events s) d v) + quota_of (remaining_quotas s) d v"
    using a0 by (simp add: q e count_value_append_replicate)
  show "int (length (events s')) + remaining_events s' = int (length (events s)) + remaining_events s"
    using a0 by (simp add: e r)
qed

lemma assign_loop_inv:
  assumes dn: "distinct dn"
  shows "assign_loop dn cw s = Inr s' \<Longrightarrow> \<forall>d v. 0 \<le> quota_of (remaining_quotas s) d v \<Longrightarrow>
    (\<forall>d v. 0 \<le> quota_of (remaining_quotas s') d v)
    \<and> (\<forall>d v. quota_of (remaining_quotas s') d v \<le> quota_of (remaining_quotas s) d v)
    \<and> (\<forall>d\<in>set dn. \<forall>v. int (count_value (events s') d v) + quota_of (remaining_quotas s') d v
            = int (count_value (events s) d v) + quota_of (remaining_quotas s) d v)
    \<and> int (length (events s')) + remaining_events s' = int (length (events s)) + remaining_events s"
proof (induction cw arbitrary: s)
  case Nil
  then show ?case by simp
next
  case (Cons x cw)
  obtain c w where x: "x = (c, w)" by (cases x)
  show ?case
  proof (cases "remaining_events s \<le> 0")
    case True
    with Cons.prems x show ?thesis by simp
  next
    case False
    with Cons.prems x obtain s1 where 1: "assign_step dn c s = Inr s1"
      and 2: "assign_loop dn cw s1 = Inr s'"
      by (auto simp: ebind_Inr_iff)
    note i = assign_step_inv [OF dn 1 Cons.prems(2)]
    from Cons.IH [OF 2 i(1)] i(2,3,4) show ?thesis
      by (metis order_trans)
  qed
qed

text \<open>
  C4. With distinct dimension names (they are the keys of a dictionary) and quotas that
  start non-negative, every step of the greedy assignment and the whole loop leave every
  quota non-negative and no larger than before; so the events returned by the solver never
  hold a category value more often than its original marginal count.
\<close>

theorem quota_never_negative:
  assumes "distinct dim_names"
  shows "((\<forall>d v. 0 \<le> quota_of (remaining_quotas s) d v) \<and> assign_step dim_names c s = Inr s' \<longrightarrow>
            (\<forall>d v. 0 \<le> quota_of (remaining_quotas s') d v
                 \<and> quota_of (remaining_quotas s') d v \<le> quota_of (remaining_quotas s) d v))
       \<and> ((\<forall>d v. 0 \<le> quota_of (remaining_quotas s) d v) \<and> assign_loop dim_names cw s = Inr s'' \<longrightarrow>
            (\<forall>d v. 0 \<le> quota_of (remaining_quotas s'') d v
                 \<and> quota_of (remaining_quotas s'') d v \<le> quota_of (remaining_quotas s) d v))
       \<and> ((\<forall>d v. 0 \<le> quota_of m d v)
            \<and> solve_integer_assignment combinations dim_names m wt n = Inr evs \<longrightarrow>
            (\<forall>d\<in>set dim_names. \<forall>v. int (count_value evs d v) \<le> quota_of m d v))"
proof (intro conjI impI)
  assume "(\<forall>d v. 0 \<le> quota_of (remaining_quotas s) d v) \<and> assign_step dim_names c s = Inr s'"
  then show "\<forall>d v. 0 \<le> quota_of (remaining_quotas s') d v
                 \<and> quota_of (remaining_quotas s') d v \<le> quota_of (remaining_quotas s) d v"
    using assign_step_inv(1,2) [OF assms, of c s s'] by blast
next
  assume "(\<forall>d v. 0 \<le> quota_of (remaining_quotas s) d v) \<and> assign_loop dim_names cw s = Inr s''"
  then show "\<forall>d v. 0 \<le> quota_of (remaining_quotas s'') d v
                 \<and> quota_of (remaining_quotas s'') d v \<le> quota_of (remaining_quotas s) d v"
    using assign_loop_inv [OF assms, of cw s s''] by blast
next
  assume h: "(\<forall>d v. 0 \<le> quota_of m d v)
            \<and> solve_integer_assignment combinations dim_names m wt n = Inr evs"
  let ?s0 = "\<lparr>events = [], remaining_quotas = m, remaining_events = n\<rparr>"
  from h obtain cw sf where l: "assign_loop dim_names (sort_by_weight cw) ?s0 = Inr sf"
    and e: "evs = events sf"
    by (auto simp: solve_integer_assignment_def solve_integer_assignment_state_def ebind_Inr_iff)
  from h have "\<forall>d v. 0 \<le> quota_of (remaining_quotas ?s0) d v" by simp
  from assign_loop_inv [OF assms l this]
  have nn: "\<forall>d v. 0 \<le> quota_of (remaining_quotas sf) d v"
    and c: "\<forall>d\<in>set dim_names. \<forall>v. int (count_value (events sf) d v) + quota_of (remaining_quotas sf) d v
            = quota_of m d v"
    by (simp_all add: count_value_def)
  show "\<forall>d\<in>set dim_names. \<forall>v. int (count_value evs d v) \<le> quota_of m d v"
  proof (intro ballI allI)
    fix d v assume "d \<in> set dim_names"
    with c have "int (count_value (events sf) d v) + quota_of (remaining_quotas sf) d v = quota_of m d v"
      by blast
    with nn e show "int (count_value evs d v) \<le> quota_of m d v"
      by (metis add.commute le_add_same_cancel2)
  qed
qed
theorem quota_never_negative_witness:
  "distinct [''pages'', ''browsers'']
   \<and> (\<forall>d v. 0 \<le> quota_of infeasible_marginals d v)
   \<and> assign_step [''pages'', ''browsers''] [(''pages'', ''/a''), (''browsers'', ''Chrome'')]
        \<lparr>events = [], remaining_quotas = infeasible_marginals, remaining_events = 3\<rparr> =
       Inr \<lparr>events = [[(''pages'', ''/a''), (''browsers'', ''Chrome'')]],
            remaining_quotas =
              [(''pages'', [(''/a'', 2)]), (''browsers'', [(''Chrome'', 0), (''Safari'', 1)])],
            remaining_events = 2\<rparr>
   \<and> (\<forall>d v. 0 \<le> quota_of [(''pages'', [(''/a'', 2)]),
                              (''browsers'', [(''Chrome'', 0), (''Safari'', 1)])] d v
          \<and> quota_of [(''pages'', [(''/a'', 2)]),
                       (''browsers'', [(''Chrome'', 0), (''Safari'', 1)])] d v
              \<le> quota_of infeasible_marginals d v)
   \<and> solve_integer_assignment (all_combinations infeasible_marginals) [''pages'', ''browsers'']
        infeasible_marginals [] 3 =
       Inr [[(''pages'', ''/a''), (''browsers'', ''Chrome'')],
            [(''pages'', ''/a''), (''browsers'', ''Safari'')]]
   \<and> (\<forall>v. int (count_value [[(''pages'', ''/a''), (''browsers'', ''Chrome'')],
                              [(''pages'', ''/a''), (''browsers'', ''Safari'')]] ''pages'' v)
           \<le> quota_of infeasible_marginals ''pages'' v)
   \<and> (\<forall>v. int (count_value [[(''pages'', ''/a''), (''browsers'', ''Chrome'')],
                              [(''pages'', ''/a''), (''browsers'', ''Safari'')]] ''browsers'' v)
           \<le> quota_of infeasible_marginals ''browsers'' v)"
proof -
  let ?dn = "[''pages'', ''browsers'']"
  let ?s0 = "\<lparr>events = [], remaining_quotas = infeasible_marginals, remaining_events = 3\<rparr>"
  let ?c = "[(''pages'', ''/a''), (''browsers'', ''Chrome'')]"
  let ?s1 = "\<lparr>events = [[(''pages'', ''/a''), (''browsers'', ''Chrome'')]],
            remaining_quotas =
              [(''pages'', [(''/a'', 2)]), (''browsers'', [(''Chrome'', 0), (''Safari'', 1)])],
            remaining_events = 2\<rparr>"
  let ?evs = "[[(''pages'', ''/a''), (''browsers'', ''Chrome'')],
            [(''pages'', ''/a''), (''browsers'', ''Safari'')]]"
  have d: "distinct ?dn" by simp
  have n: "\<forall>d v. 0 \<le> quota_of infeasible_marginals d v"
    by (simp add: quota_of_def get_default_def infeasible_marginals_def)
  have st: "assign_step ?dn ?c ?s0 = Inr ?s1"
    by code_simp
  have so: "solve_integer_assignment (all_combinations infeasible_marginals) ?dn
        infeasible_marginals [] 3 = Inr ?evs"
    by code_simp
  from quota_never_negative [OF d, of ?s0 ?c ?s1 "[]" ?s0 infeasible_marginals
      "all_combinations infeasible_marginals" "[]" 3 ?evs] n st so d
  show ?thesis by simp
qed

section \<open>The visits of the Session Composer\<close>


subsection \<open>Rounding\<close>

lemma py_round_bounds:
  "\<lfloor>x\<rfloor> \<le> py_round x" "py_round x \<le> \<lceil>x\<rceil>"
proof -
  show "\<lfloor>x\<rfloor> \<le> py_round x" by (simp add: py_round_def Let_def)
  show "py_round x \<le> \<lceil>x\<rceil>"
  proof (cases "x = of_int \<lfloor>x\<rfloor>")
    case True
    then have "x - of_int \<lfloor>x\<rfloor> = 0" by simp
    then have "py_round x = \<lfloor>x\<rfloor>" by (simp add: py_round_def Let_def)
    then show ?thesis by (simp add: floor_le_ceiling)
  next
    case False
    then have "\<lceil>x\<rceil> = \<lfloor>x\<rfloor> + 1" by (simp add: ceiling_altdef)
    then show ?thesis by (simp add: py_round_def Let_def)
  qed
qed

lemma py_round_of_int: "py_round (of_int k) = k"
  by (simp add: py_round_def Let_def)

lemma float_exponent_le:
  assumes "0 < x" and "x < 2 ^ 53"
  shows "float_exponent x \<le> 52"
proof (cases "1 \<le> x")
  case True
  from assms have "\<lfloor>x\<rfloor> < 2 ^ 53" by (simp add: floor_less_iff)
  moreover from assms have "0 \<le> \<lfloor>x\<rfloor>" by simp
  ultimately have "int (nat \<lfloor>x\<rfloor>) < int (2 ^ 53)" by simp
  then have "nat \<lfloor>x\<rfloor> < 2 ^ 53" by (simp only: of_nat_less_iff)
  then have "floorlog 2 (nat \<lfloor>x\<rfloor>) \<le> 53" by (intro floorlog_leI) simp_all
  with True show ?thesis by (simp add: float_exponent_def)
next
  case False
  then show ?thesis by (simp add: float_exponent_def)
qed

lemma pow2_inverse: "k \<le> 0 \<Longrightarrow> pow2 k = 1 / 2 ^ nat (- k)"
  by (cases "k = 0") (simp_all add: pow2_def)

lemma round_double_range:
  assumes "0 \<le> x" and "x \<le> of_int V" and "V < 2 ^ 53"
  shows "0 \<le> round_double x" and "round_double x \<le> of_int V"
proof -
  have "0 \<le> round_double x \<and> round_double x \<le> of_int V"
  proof (cases "x = 0")
    case True
    with assms show ?thesis by (simp add: round_double_def)
  next
    case False
    with assms(1) have pos: "0 < x" by simp
    from assms(2,3) have "x < 2 ^ 53"
      by (metis le_less_trans of_int_less_numeral_power_cancel_iff)
    from float_exponent_le [OF pos this] have "float_exponent x - 52 \<le> 0" by simp
    from pow2_inverse [OF this] obtain j where u: "pow2 (float_exponent x - 52) = 1 / 2 ^ j"
      by blast
    let ?y = "x * 2 ^ j"
    have rd: "round_double x = of_int (py_round ?y) / 2 ^ j"
      using pos False by (simp add: round_double_def Let_def u)
    from assms(1) have "0 \<le> ?y" by simp
    then have "0 \<le> \<lfloor>?y\<rfloor>" by simp
    with py_round_bounds(1) [of ?y] have lo: "0 \<le> py_round ?y" by linarith
    from assms(2) have "?y \<le> of_int V * 2 ^ j" by simp
    also have "\<dots> = of_int (V * 2 ^ j)" by simp
    finally have "\<lceil>?y\<rceil> \<le> V * 2 ^ j" by (simp only: ceiling_le_iff)
    with py_round_bounds(2) [of ?y] have "py_round ?y \<le> V * 2 ^ j" by linarith
    then have "(of_int (py_round ?y) :: real) \<le> of_int (V * 2 ^ j)" by (simp only: of_int_le_iff)
    then have hi: "(of_int (py_round ?y) :: real) / 2 ^ j \<le> of_int V"
      by (simp add: divide_le_eq)
    from lo hi show ?thesis by (simp add: rd)
  qed
  then show "0 \<le> round_double x" and "round_double x \<le> of_int V" by simp_all
qed

lemma round_double_of_int:
  assumes "0 \<le> V" and "V < 2 ^ 53"
  shows "round_double (of_int V) = of_int V"
proof (cases "V = 0")
  case True
  then show ?thesis by (simp add: round_double_def)
next
  case False
  with assms(1) have pos: "0 < (of_int V :: real)" by simp
  from assms(2) have "(of_int V :: real) < 2 ^ 53" by simp
  from float_exponent_le [OF pos this] have "float_exponent (of_int V) - 52 \<le> 0" by simp
  from pow2_inverse [OF this] obtain j where u: "pow2 (float_exponent (of_int V) - 52) = 1 / 2 ^ j"
    by blast
  have "(of_int V :: real) * 2 ^ j = of_int (V * 2 ^ j)" by simp
  then have "py_round (of_int V * 2 ^ j) = V * 2 ^ j" by (simp only: py_round_of_int)
  with pos False assms(1) show ?thesis
    by (simp add: round_double_def Let_def u)
qed

lemma bounced_visits_range:
  assumes "0 \<le> V" and "V < 2 ^ 53" and "0 \<le> b" and "b \<le> 1"
  shows "\<exists>k. bounced_visits V (Finite b) = Inr k \<and> 0 \<le> k \<and> k \<le> V"
proof -
  let ?x = "round_double (of_int V) * b"
  have v: "round_double (of_int V) = of_int V" by (rule round_double_of_int [OF assms(1,2)])
  from assms have x0: "0 \<le> ?x" by (simp add: v)
  from assms have xV: "?x \<le> of_int V" by (simp add: v mult_left_le)
  note r = round_double_range [OF x0 xV assms(2)]
  let ?r = "round_double ?x"
  from r(1) have "0 \<le> \<lfloor>?r\<rfloor>" by simp
  with py_round_bounds(1) [of ?r] have lo: "0 \<le> py_round ?r" by linarith
  from r(2) have "\<lceil>?r\<rceil> \<le> V" by (simp add: ceiling_le_iff)
  with py_round_bounds(2) [of ?r] have hi: "py_round ?r \<le> V" by linarith
  from lo hi show ?thesis
    by (simp add: bounced_visits_def float_mul_int_def round_float_def)
qed


subsection \<open>The partition\<close>

lemma bounce_loop_eq: "bounce_loop n vs ec = (vs @ map (\<lambda>e. [e]) (take n ec), drop n ec)"
proof (induction n arbitrary: vs ec)
  case 0
  then show ?case by simp
next
  case (Suc n)
  then show ?case by (cases ec) simp_all
qed

lemma fill_visit_eq: "fill_visit n v ec = (v @ take n ec, drop n ec)"
proof (induction n arbitrary: v ec)
  case 0
  then show ?case by simp
next
  case (Suc n)
  then show ?case by (cases ec) simp_all
qed

lemma multi_loop_eq:
  "multi_loop is q r vs ec =
     (vs @ filter (\<lambda>v. v \<noteq> []) (chunks (map (\<lambda>i. nat (visit_size q r i)) is) ec),
      drop (sum_list (map (\<lambda>i. nat (visit_size q r i)) is)) ec)"
proof (induction "is" arbitrary: vs ec)
  case Nil
  then show ?case by simp
next
  case (Cons i "is")
  show ?case
    by (simp add: fill_visit_eq Cons.IH add.commute)
qed

lemma concat_chunks: "concat (chunks ks xs) = take (sum_list ks) xs"
proof (induction ks arbitrary: xs)
  case Nil
  then show ?case by simp
next
  case (Cons k ks)
  show ?case by (simp add: Cons.IH take_add)
qed

lemma length_chunks: "sum_list ks \<le> length xs \<Longrightarrow> map length (chunks ks xs) = ks"
  by (induction ks arbitrary: xs) auto

lemma concat_filter_nonempty: "concat (filter (\<lambda>v. v \<noteq> []) xss) = concat xss"
  by (induction xss) auto

lemma sum_visit_sizes:
  assumes "0 \<le> q" and "0 \<le> r"
  shows "sum_list (map (\<lambda>i. nat (visit_size q r i)) [0..<M]) = nat q * M + min (nat r) M"
proof (induction M)
  case 0
  then show ?case by simp
next
  case (Suc M)
  have "nat (visit_size q r M) = nat q + (if M < nat r then 1 else 0)"
    using assms by (auto simp: visit_size_def nat_add_distrib)
  with Suc show ?case by (auto simp: min_def)
qed

lemma build_visits_eq:
  "build_visits evs V bounced =
     (let k = nat bounced; multi = V - bounced;
          first = map (\<lambda>e. [e]) (take k evs); ec = drop k evs;
          sizes = map (\<lambda>i. nat (visit_size (int (length ec) div multi) (int (length ec) mod multi) i))
                    [0..<nat multi]
      in if multi > 0 \<and> ec \<noteq> []
         then (first @ filter (\<lambda>v. v \<noteq> []) (chunks sizes ec), drop (sum_list sizes) ec)
         else (first, ec))"
  by (simp add: build_visits_def Let_def bounce_loop_eq multi_loop_eq)

lemma sizes_total:
  assumes "0 < multi"
  shows "sum_list (map (\<lambda>i. nat (visit_size (int n div multi) (int n mod multi) i)) [0..<nat multi]) = n"
proof -
  let ?q = "int n div multi" and ?r = "int n mod multi"
  from assms have q: "0 \<le> ?q" by (simp add: pos_imp_zdiv_nonneg_iff)
  from assms have r: "0 \<le> ?r" "?r < multi" by simp_all
  from r have m: "min (nat ?r) (nat multi) = nat ?r" by simp
  have "int (nat ?q * nat multi + nat ?r) = ?q * multi + ?r"
    using q r assms by simp
  also have "\<dots> = int n" by simp
  finally have "nat ?q * nat multi + nat ?r = n" by linarith
  with sum_visit_sizes [OF q r(1), of "nat multi"] m show ?thesis by simp
qed

lemma visit_size_range:
  assumes "0 < multi"
  shows "visit_size (int n div multi) (int n mod multi) i = int n div multi
       \<or> visit_size (int n div multi) (int n mod multi) i = int n div multi + 1"
  by (simp add: visit_size_def)

lemma map_length_filter_nonempty:
  "map length (filter (\<lambda>v. v \<noteq> []) xss) = filter (\<lambda>n. 0 < n) (map length xss)"
  by (induction xss) auto


lemma map_int_filter_pos:
  "map int (filter (\<lambda>n. 0 < n) ks) = filter (\<lambda>n. 0 < n) (map int ks)"
  by (induction ks) auto

lemma build_visits_structure:
  "\<exists>rest ec. build_visits evs V bounced =
       (map (\<lambda>e. [e]) (take (nat (bounced)) evs) @ rest, ec)
     \<and> concat rest @ ec = drop (nat (bounced)) evs
     \<and> (bounced < V \<longrightarrow> ec = [])
     \<and> (V \<le> bounced \<longrightarrow> rest = [])
     \<and> map (\<lambda>v. int (length v)) rest =
         filter (\<lambda>n. 0 < n)
           (map (visit_size
                  (int (length (drop (nat (bounced)) evs)) div (V - bounced))
                  (int (length (drop (nat (bounced)) evs)) mod (V - bounced)))
              [0..<nat (V - bounced)])"
proof -
  let ?k = "nat bounced"
  let ?multi = "V - bounced"
  let ?ec = "drop ?k evs"
  let ?q = "int (length ?ec) div ?multi" and ?r = "int (length ?ec) mod ?multi"
  let ?sizes = "map (\<lambda>i. nat (visit_size ?q ?r i)) [0..<nat ?multi]"
  let ?first = "map (\<lambda>e. [e]) (take ?k evs)"
  consider (split) "0 < ?multi" "?ec \<noteq> []" | (exhausted) "0 < ?multi" "?ec = []"
    | (all_bounce) "?multi \<le> 0" by fastforce
  then show ?thesis
  proof cases
    case split
    let ?rest = "filter (\<lambda>v. v \<noteq> []) (chunks ?sizes ?ec)"
    have tot: "sum_list ?sizes = length ?ec" using sizes_total [OF split(1)] .
    have bv: "build_visits evs V bounced = (?first @ ?rest, [])"
      using split unfolding build_visits_eq Let_def tot by simp
    have c: "concat ?rest = ?ec"
      unfolding concat_filter_nonempty concat_chunks tot by simp
    from split(1) have q0: "0 \<le> ?q" by (simp add: pos_imp_zdiv_nonneg_iff)
    have nonneg: "int (nat (visit_size ?q ?r i)) = visit_size ?q ?r i" for i
      using q0 by (simp add: visit_size_def)
    have ml: "map length ?rest = filter (\<lambda>n. 0 < n) ?sizes"
      unfolding map_length_filter_nonempty using length_chunks [of ?sizes ?ec] tot by simp
    have "map (\<lambda>v. int (length v)) ?rest = map int (map length ?rest)"
      by (simp only: map_map comp_def)
    also have "\<dots> = filter (\<lambda>n. 0 < n) (map int ?sizes)"
      unfolding ml by (rule map_int_filter_pos)
    also have "map int ?sizes = map (visit_size ?q ?r) [0..<nat ?multi]"
      by (simp only: map_map comp_def nonneg)
    finally have l: "map (\<lambda>v. int (length v)) ?rest =
        filter (\<lambda>n. 0 < n) (map (visit_size ?q ?r) [0..<nat ?multi])" .
    from split(1) have "\<not> V \<le> bounced" by simp
    with bv c l show ?thesis by simp
  next
    case exhausted
    have bv: "build_visits evs V bounced = (?first, [])"
      using exhausted unfolding build_visits_eq Let_def by simp
    have "filter (\<lambda>n. 0 < n) (map (visit_size ?q ?r) [0..<nat ?multi]) = []"
      using exhausted by (simp add: visit_size_def filter_empty_conv)
    with bv exhausted show ?thesis by simp
  next
    case all_bounce
    have bv: "build_visits evs V bounced = (?first, ?ec)"
      using all_bounce unfolding build_visits_eq Let_def by simp
    from all_bounce have "nat ?multi = 0" by simp
    with bv all_bounce show ?thesis by simp
  qed
qed


lemma take_drop_min:
  "take (min a (length xs)) xs = take a xs" "drop (min a (length xs)) xs = drop a xs"
  by (simp_all add: min_def)



lemma length_filter_below:
  "length (filter (\<lambda>i. i < n) [0..<M]) = min n M"
  by (induction M) auto

lemma count_positive_sizes:
  assumes "0 < multi"
  shows "length (filter (\<lambda>n. 0 < n)
           (map (visit_size (int n div multi) (int n mod multi)) [0..<nat multi]))
         = min (nat multi) n"
proof (cases "1 \<le> int n div multi")
  case True
  then have "filter (\<lambda>k. 0 < k) (map (visit_size (int n div multi) (int n mod multi)) [0..<nat multi])
      = map (visit_size (int n div multi) (int n mod multi)) [0..<nat multi]"
    by (auto simp: filter_id_conv visit_size_def)
  moreover have "multi \<le> int n"
  proof (rule ccontr)
    assume "\<not> multi \<le> int n"
    then have "int n div multi = 0" using assms by (simp add: div_pos_pos_trivial)
    with True show False by simp
  qed
  ultimately show ?thesis using assms by simp
next
  case False
  moreover from assms have "0 \<le> int n div multi" by (simp add: pos_imp_zdiv_nonneg_iff)
  ultimately have q: "int n div multi = 0" by simp
  then have r: "int n mod multi = int n" using assms
    by (metis add.left_neutral mult_zero_right mult_div_mod_eq mult.commute)
  from q assms have lt: "int n < multi"
    by (metis r pos_mod_bound)
  have "filter (\<lambda>k. 0 < k) (map (visit_size 0 (int n)) [0..<nat multi])
      = map (visit_size 0 (int n)) (filter (\<lambda>i. i < n) [0..<nat multi])"
    by (simp add: filter_map comp_def visit_size_def)
  then have "length (filter (\<lambda>k. 0 < k) (map (visit_size 0 (int n)) [0..<nat multi]))
      = min n (nat multi)"
    by (simp add: length_filter_below)
  then show ?thesis by (simp add: q r min.commute)
qed


text \<open>
  C9 (as amended). For a non-empty event list, a visit count \<open>1 \<le> V < 2^53\<close> and a bounce
  rate in \<open>[0, 1]\<close>, with \<open>bounced = round(V * b)\<close> on the float product: the first
  \<open>min bounced (number of events)\<close> visits are single-event visits that hold the first events
  in order; the visits after them hold the remaining events in order when \<open>bounced < V\<close>;
  their sizes are the planned sizes \<open>events_per_visit + (1 if i < remainder else 0)\<close>,
  \<open>i < V - bounced\<close>, that are not zero, so there are \<open>min (V - bounced) (remaining events)\<close>
  of them, and any two of these sizes differ by at most 1.
\<close>

theorem bounce_partition:
  assumes "evs \<noteq> []" and "1 \<le> V" and "V < 2 ^ 53" and "0 \<le> b" and "b \<le> 1"
  shows "\<exists>bounced visits ec k.
      bounced_visits V (Finite b) = Inr bounced
    \<and> 0 \<le> bounced \<and> bounced \<le> V
    \<and> build_visits evs V bounced = (visits, ec)
    \<and> k = min (nat bounced) (length evs)
    \<and> take k visits = map (\<lambda>e. [e]) (take k evs)
    \<and> concat (drop k visits) @ ec = drop k evs
    \<and> (bounced < V \<longrightarrow> ec = [])
    \<and> map (\<lambda>v. int (length v)) (drop k visits) =
        filter (\<lambda>n. 0 < n)
          (map (visit_size (int (length (drop k evs)) div (V - bounced))
                           (int (length (drop k evs)) mod (V - bounced)))
             [0..<nat (V - bounced)])
    \<and> length (drop k visits) = min (nat (V - bounced)) (length (drop k evs))
    \<and> (\<forall>v\<in>set (drop k visits). \<forall>w\<in>set (drop k visits). length v \<le> length w + 1)"
proof -
  from assms have V0: "0 \<le> V" by simp
  from bounced_visits_range [OF V0 assms(3,4,5)] obtain bounced where
    bd: "bounced_visits V (Finite b) = Inr bounced" and range: "0 \<le> bounced" "bounced \<le> V"
    by blast
  let ?k = "min (nat bounced) (length evs)"
  let ?q = "int (length (drop ?k evs)) div (V - bounced)"
  let ?r = "int (length (drop ?k evs)) mod (V - bounced)"
  from build_visits_structure [of evs V bounced] obtain rest ec where
    bv: "build_visits evs V bounced = (map (\<lambda>e. [e]) (take (nat bounced) evs) @ rest, ec)"
    and cc: "concat rest @ ec = drop (nat bounced) evs"
    and e: "bounced < V \<longrightarrow> ec = []"
    and l: "map (\<lambda>v. int (length v)) rest =
         filter (\<lambda>n. 0 < n)
           (map (visit_size
                  (int (length (drop (nat bounced) evs)) div (V - bounced))
                  (int (length (drop (nat bounced) evs)) mod (V - bounced)))
              [0..<nat (V - bounced)])"
    by blast
  let ?first = "map (\<lambda>e. [e]) (take ?k evs)"
  let ?visits = "?first @ rest"
  have len: "length ?first = ?k" by simp
  have bv': "build_visits evs V bounced = (?visits, ec)"
    using bv by (simp only: take_drop_min)
  have t: "take ?k ?visits = ?first" using len by simp
  have d: "drop ?k ?visits = rest" using len by simp
  have l': "map (\<lambda>v. int (length v)) rest =
         filter (\<lambda>n. 0 < n) (map (visit_size ?q ?r) [0..<nat (V - bounced)])"
    using l by (simp only: take_drop_min)
  have sz: "int (length v) = ?q \<or> int (length v) = ?q + 1" if "v \<in> set rest" for v
  proof -
    from that have "int (length v) \<in> set (map (\<lambda>v. int (length v)) rest)" by simp
    then have "int (length v) \<in> set (map (visit_size ?q ?r) [0..<nat (V - bounced)])"
      unfolding l' by simp
    then show ?thesis by (auto simp: visit_size_def)
  qed
  have diff: "\<forall>v\<in>set rest. \<forall>w\<in>set rest. length v \<le> length w + 1"
  proof (intro ballI)
    fix v w assume "v \<in> set rest" and "w \<in> set rest"
    from sz [OF this(1)] sz [OF this(2)] show "length v \<le> length w + 1" by linarith
  qed
  have "length rest = length (map (\<lambda>v. int (length v)) rest)" by simp
  also have "\<dots> = length (filter (\<lambda>n. 0 < n) (map (visit_size ?q ?r) [0..<nat (V - bounced)]))"
    by (simp only: l')
  also have "\<dots> = min (nat (V - bounced)) (length (drop ?k evs))"
  proof (cases "0 < V - bounced")
    case True
    then show ?thesis by (rule count_positive_sizes)
  next
    case False
    then have "nat (V - bounced) = 0" by simp
    then show ?thesis by simp
  qed
  finally have cnt: "length rest = min (nat (V - bounced)) (length (drop ?k evs))" .
  have cc': "concat rest @ ec = drop ?k evs" using cc by (simp only: take_drop_min)
  show ?thesis
    apply (rule exI [of _ bounced], rule exI [of _ ?visits], rule exI [of _ ec],
           rule exI [of _ ?k])
    apply (simp only: t d)
    using bd bv' range e l' diff cc' cnt by blast
qed


theorem bounce_partition_witness:
  "bounced_visits 5 (Finite (8106479329266893 / 9007199254740992)) = Inr 4
   \<and> bounced_visits 3 (Finite (5404319552844595 / 9007199254740992)) = Inr 2
   \<and> bounced_visits 7 (Finite (1 / 2)) = Inr 4
   \<and> bounced_visits 5 (Finite (1 / 2)) = Inr 2
   \<and> build_visits [1, 2, 3, 4, 5, 6, 7 :: nat] 5 4 = ([[1], [2], [3], [4], [5, 6, 7]], [])
   \<and> (\<exists>bounced visits ec k.
         bounced_visits 5 (Finite (8106479329266893 / 9007199254740992)) = Inr bounced
       \<and> build_visits [1, 2, 3, 4, 5, 6, 7 :: nat] 5 bounced = (visits, ec)
       \<and> k = min (nat bounced) (length [1, 2, 3, 4, 5, 6, 7 :: nat])
       \<and> take k visits = map (\<lambda>e. [e]) (take k [1, 2, 3, 4, 5, 6, 7 :: nat])
       \<and> length (drop k visits) = min (nat (5 - bounced)) (length (drop k [1, 2, 3, 4, 5, 6, 7 :: nat]))
       \<and> (\<forall>v\<in>set (drop k visits). \<forall>w\<in>set (drop k visits). length v \<le> length w + 1))"
proof -
  have 1: "bounced_visits 5 (Finite (8106479329266893 / 9007199254740992)) = Inr 4" by code_simp
  have 2: "bounced_visits 3 (Finite (5404319552844595 / 9007199254740992)) = Inr 2" by code_simp
  have 3: "bounced_visits 7 (Finite (1 / 2)) = Inr 4" by code_simp
  have 4: "bounced_visits 5 (Finite (1 / 2)) = Inr 2" by code_simp
  have 5: "build_visits [1, 2, 3, 4, 5, 6, 7 :: nat] 5 4 = ([[1], [2], [3], [4], [5, 6, 7]], [])"
    by code_simp
  have h: "[1, 2, 3, 4, 5, 6, 7 :: nat] \<noteq> []" "(1::int) \<le> 5" "(5::int) < 2 ^ 53"
    "(0::real) \<le> 8106479329266893 / 9007199254740992"
    "(8106479329266893 / 9007199254740992 :: real) \<le> 1"
    by simp_all
  from bounce_partition [OF h]
  have "\<exists>bounced visits ec k.
         bounced_visits 5 (Finite (8106479329266893 / 9007199254740992)) = Inr bounced
       \<and> build_visits [1, 2, 3, 4, 5, 6, 7 :: nat] 5 bounced = (visits, ec)
       \<and> k = min (nat bounced) (length [1, 2, 3, 4, 5, 6, 7 :: nat])
       \<and> take k visits = map (\<lambda>e. [e]) (take k [1, 2, 3, 4, 5, 6, 7 :: nat])
       \<and> length (drop k visits) = min (nat (5 - bounced)) (length (drop k [1, 2, 3, 4, 5, 6, 7 :: nat]))
       \<and> (\<forall>v\<in>set (drop k visits). \<forall>w\<in>set (drop k visits). length v \<le> length w + 1)"
    by blast
  with 1 2 3 4 5 show ?thesis by blast
qed

theorem bounce_partition_counterexample:
  "bounced_visits 4 (Finite (1 / 2)) = Inr 2
   \<and> build_visits [1, 2, 3, 4 :: nat] 4 2 = ([[1], [2], [3], [4]], [])
   \<and> length (filter (\<lambda>v. length v = 1) (fst (build_visits [1, 2, 3, 4 :: nat] 4 2))) = 4
   \<and> bounced_visits 10 (Finite 0) = Inr 0
   \<and> build_visits [1, 2, 3 :: nat] 10 0 = ([[1], [2], [3]], [])
   \<and> length (fst (build_visits [1, 2, 3 :: nat] 10 0)) = 3"
  by code_simp

subsection \<open>The output events\<close>









section \<open>Round trip for feasible marginals\<close>


lemma sum_values_keys:
  "distinct (map fst t) \<Longrightarrow> sum_values t = (\<Sum>k\<in>set (map fst t). get_default t k 0)"
proof (induction t)
  case Nil
  then show ?case by (simp add: sum_values_def)
next
  case (Cons x t)
  obtain k v where x: "x = (k, v)" by (cases x)
  from Cons.prems x have k: "k \<notin> fst ` set t" and d: "distinct (map fst t)" by auto
  have "(\<Sum>j\<in>set (map fst t). get_default ((k, v) # t) j 0) = (\<Sum>j\<in>set (map fst t). get_default t j 0)"
    by (rule sum.cong) (use k in \<open>auto simp: get_default_def\<close>)
  with Cons.IH [OF d] k x show ?case
    by (simp add: sum_values_def get_default_def)
qed

lemma get_default_notin: "k \<notin> fst ` set t \<Longrightarrow> get_default t k d = d"
  using map_of_eq_None_iff [of t k] by (simp add: get_default_def)

lemma quota_of_notin_keys: "v \<notin> keys_of m d \<Longrightarrow> quota_of m d v = 0"
  by (simp add: keys_of_def quota_of_def get_default_notin)

lemma sum_decrement_one:
  assumes "finite K" and "k \<in> K"
  shows "(\<Sum>v\<in>K. f v - (if v = k then a else 0)) = (\<Sum>v\<in>K. f v) - (a::int)"
proof -
  have "(\<Sum>v\<in>K. f v - (if v = k then a else 0)) = (\<Sum>v\<in>K. f v) - (\<Sum>v\<in>K. if v = k then a else 0)"
    by (rule sum_subtractf)
  also have "(\<Sum>v\<in>K. if v = k then a else 0) = a"
    using assms by (simp add: sum.delta)
  finally show ?thesis .
qed

lemma assign_step_solver_inv:
  assumes dn: "distinct dn" and inv: "solver_inv m dn n s" and st: "assign_step dn c s = Inr s'"
  shows "solver_inv m dn n s'"
proof -
  from inv have nn: "\<forall>d v. 0 \<le> quota_of (remaining_quotas s) d v"
    and le: "\<forall>d v. quota_of (remaining_quotas s) d v \<le> quota_of m d v"
    and cnt: "\<forall>d\<in>set dn. \<forall>v. int (count_value (events s) d v) + quota_of (remaining_quotas s) d v
                        = quota_of m d v"
    and sm: "\<forall>d\<in>set dn. (\<Sum>v\<in>keys_of m d. quota_of (remaining_quotas s) d v) = remaining_events s"
    and dm: "\<forall>d\<in>set dn. map_of (remaining_quotas s) d \<noteq> None"
    and tot: "int (length (events s)) + remaining_events s = n"
    and r0: "0 \<le> remaining_events s"
    by (simp_all add: solver_inv_def)
  note i = assign_step_inv [OF dn st nn]
  from assign_step_effect [OF dn st] obtain a ma where
    ma: "max_assignable dn c (remaining_quotas s) (remaining_events s) = Inr ma"
    and a: "a = max 0 ma"
    and q: "\<And>d v. quota_of (remaining_quotas s') d v =
            quota_of (remaining_quotas s) d v - (if d \<in> set dn \<and> map_of c d = Some v then a else 0)"
    and r: "remaining_events s' = remaining_events s - a"
    by blast
  have sum': "(\<Sum>v\<in>keys_of m d. quota_of (remaining_quotas s') d v) = remaining_events s'"
    if d: "d \<in> set dn" for d
  proof (cases "0 < ma")
    case True
    with a have ama: "a = ma" by simp
    from max_assignable_le [OF ma] d obtain w where w: "map_of c d = Some w"
      and mw: "ma \<le> quota_of (remaining_quotas s) d w" by blast
    from True mw le have "0 < quota_of m d w" by (meson less_le_trans)
    then have wk: "w \<in> keys_of m d" using quota_of_notin_keys [of w m d] by auto
    have "(\<Sum>v\<in>keys_of m d. quota_of (remaining_quotas s') d v)
        = (\<Sum>v\<in>keys_of m d. quota_of (remaining_quotas s) d v - (if v = w then a else 0))"
      by (rule sum.cong) (use d w in \<open>auto simp: q\<close>)
    also have "\<dots> = (\<Sum>v\<in>keys_of m d. quota_of (remaining_quotas s) d v) - a"
      by (rule sum_decrement_one) (use wk in \<open>simp_all add: keys_of_def\<close>)
    finally show ?thesis using sm d r by simp
  next
    case False
    with a have a0: "a = 0" by simp
    have "quota_of (remaining_quotas s') d v = quota_of (remaining_quotas s) d v" for v
      unfolding q a0 by simp
    with sm d r a0 show ?thesis by simp
  qed
  have dom': "\<forall>d\<in>set dn. map_of (remaining_quotas s') d \<noteq> None"
  proof (cases "0 < ma")
    case True
    with st ma obtain q' where "decrement_quotas dn c ma (remaining_quotas s) = Inr q'"
      and "remaining_quotas s' = q'"
      by (auto simp: assign_step_def ebind_Inr_iff)
    with decrement_quotas_dom dm show ?thesis by blast
  next
    case False
    with st ma have "s' = s" by (simp add: assign_step_def)
    with dm show ?thesis by simp
  qed
  have r0': "0 \<le> remaining_events s'"
    using max_assignable_le [OF ma] a r r0 by (simp add: max_def)
  from i le cnt tot sum' dom' r0' show ?thesis
    unfolding solver_inv_def by (metis order_trans)
qed


lemma assign_step_ok:
  assumes dn: "distinct dn" and inv: "solver_inv m dn n s"
    and keys: "\<forall>d\<in>set dn. map_of c d \<noteq> None"
  shows "\<exists>s'. assign_step dn c s = Inr s'"
proof -
  from inv have dm: "\<forall>d\<in>set dn. map_of (remaining_quotas s) d \<noteq> None"
    by (simp add: solver_inv_def)
  from max_assignable_ok [of dn c "remaining_quotas s" "remaining_events s"] keys dm
  obtain ma where ma: "max_assignable dn c (remaining_quotas s) (remaining_events s) = Inr ma"
    by blast
  show ?thesis
  proof (cases "0 < ma")
    case True
    from max_assignable_le [OF ma] True
    have "\<forall>d\<in>set dn. \<exists>v. map_of c d = Some v \<and> 0 < quota_of (remaining_quotas s) d v"
      by (meson less_le_trans)
    from decrement_quotas_ok [OF dn this] obtain q' where
      "decrement_quotas dn c ma (remaining_quotas s) = Inr q'" by blast
    with ma True show ?thesis by (simp add: assign_step_def)
  next
    case False
    with ma show ?thesis by (simp add: assign_step_def)
  qed
qed

lemma assign_step_exhausts:
  assumes dn: "distinct dn" and st: "assign_step dn c s = Inr s'"
  shows "remaining_events s' \<le> 0
       \<or> (\<exists>d\<in>set dn. \<exists>v. map_of c d = Some v \<and> quota_of (remaining_quotas s') d v \<le> 0)"
proof -
  from assign_step_effect [OF dn st] obtain a ma where
    ma: "max_assignable dn c (remaining_quotas s) (remaining_events s) = Inr ma"
    and a: "a = max 0 ma"
    and q: "\<And>d v. quota_of (remaining_quotas s') d v =
            quota_of (remaining_quotas s) d v - (if d \<in> set dn \<and> map_of c d = Some v then a else 0)"
    and r: "remaining_events s' = remaining_events s - a"
    by blast
  from max_assignable_attained [OF ma] show ?thesis
  proof
    assume "ma = remaining_events s"
    with a r have "remaining_events s' \<le> 0" by (simp add: max_def)
    then show ?thesis ..
  next
    assume "\<exists>d\<in>set dn. \<exists>v. map_of c d = Some v \<and> ma = quota_of (remaining_quotas s) d v"
    then obtain d v where d: "d \<in> set dn" and v: "map_of c d = Some v"
      and e: "ma = quota_of (remaining_quotas s) d v" by blast
    from q [of d v] d v have "quota_of (remaining_quotas s') d v = ma - a" by (simp add: e)
    with a have "quota_of (remaining_quotas s') d v \<le> 0" by (simp add: max_def)
    with d v show ?thesis by blast
  qed
qed

lemma assign_loop_done: "remaining_events s \<le> 0 \<Longrightarrow> assign_loop dn cw s = Inr s"
  by (cases cw) auto

lemma solver_inv_nonneg: "solver_inv m dn n s \<Longrightarrow> \<forall>d v. 0 \<le> quota_of (remaining_quotas s) d v"
  by (simp add: solver_inv_def)

lemma assign_loop_total:
  assumes dn: "distinct dn"
  shows "solver_inv m dn n s \<Longrightarrow> \<forall>x\<in>set cw. \<forall>d\<in>set dn. map_of (fst x) d \<noteq> None \<Longrightarrow>
    \<exists>s'. assign_loop dn cw s = Inr s' \<and> solver_inv m dn n s'
       \<and> (remaining_events s' \<le> 0
           \<or> (\<forall>x\<in>set cw. \<exists>d\<in>set dn. \<exists>v. map_of (fst x) d = Some v
                   \<and> quota_of (remaining_quotas s') d v \<le> 0))
       \<and> set (events s') \<subseteq> set (events s) \<union> fst ` set cw"
proof (induction cw arbitrary: s)
  case Nil
  then show ?case by simp
next
  case (Cons x cw)
  obtain c w where x: "x = (c, w)" by (cases x)
  show ?case
  proof (cases "remaining_events s \<le> 0")
    case True
    with Cons.prems(1) x show ?thesis by auto
  next
    case False
    from Cons.prems(2) x have kc: "\<forall>d\<in>set dn. map_of c d \<noteq> None" by simp
    from assign_step_ok [OF dn Cons.prems(1) kc] obtain s1 where 1: "assign_step dn c s = Inr s1"
      by blast
    note inv1 = assign_step_solver_inv [OF dn Cons.prems(1) 1]
    from Cons.prems(2) have "\<forall>x\<in>set cw. \<forall>d\<in>set dn. map_of (fst x) d \<noteq> None" by simp
    from Cons.IH [OF inv1 this] obtain s' where 2: "assign_loop dn cw s1 = Inr s'"
      and inv': "solver_inv m dn n s'"
      and ex: "remaining_events s' \<le> 0
           \<or> (\<forall>x\<in>set cw. \<exists>d\<in>set dn. \<exists>v. map_of (fst x) d = Some v
                   \<and> quota_of (remaining_quotas s') d v \<le> 0)"
      and ev: "set (events s') \<subseteq> set (events s1) \<union> fst ` set cw"
      by blast
    from False x 1 2 have l: "assign_loop dn (x # cw) s = Inr s'" by simp
    from assign_step_effect [OF dn 1] have "set (events s1) \<subseteq> set (events s) \<union> {c}"
      by auto
    with ev x have ev': "set (events s') \<subseteq> set (events s) \<union> fst ` set (x # cw)" by auto
    have mono: "\<forall>d v. quota_of (remaining_quotas s') d v \<le> quota_of (remaining_quotas s1) d v"
      using assign_loop_inv [OF dn 2 solver_inv_nonneg [OF inv1]] by blast
    have ex': "remaining_events s' \<le> 0
           \<or> (\<forall>y\<in>set (x # cw). \<exists>d\<in>set dn. \<exists>v. map_of (fst y) d = Some v
                   \<and> quota_of (remaining_quotas s') d v \<le> 0)"
    proof (cases "remaining_events s' \<le> 0")
      case True
      then show ?thesis ..
    next
      case nz: False
      with ex have rest: "\<forall>x\<in>set cw. \<exists>d\<in>set dn. \<exists>v. map_of (fst x) d = Some v
                   \<and> quota_of (remaining_quotas s') d v \<le> 0" by blast
      from assign_step_exhausts [OF dn 1] have "\<exists>d\<in>set dn. \<exists>v. map_of c d = Some v
          \<and> quota_of (remaining_quotas s') d v \<le> 0"
      proof
        assume "remaining_events s1 \<le> 0"
        from assign_loop_done [OF this, of dn cw] 2 have "s' = s1" by simp
        with \<open>remaining_events s1 \<le> 0\<close> nz show ?thesis by simp
      next
        assume "\<exists>d\<in>set dn. \<exists>v. map_of c d = Some v \<and> quota_of (remaining_quotas s1) d v \<le> 0"
        then obtain d v where "d \<in> set dn" "map_of c d = Some v"
          "quota_of (remaining_quotas s1) d v \<le> 0" by blast
        moreover from mono have "quota_of (remaining_quotas s') d v \<le> quota_of (remaining_quotas s1) d v"
          by blast
        ultimately show ?thesis by (meson order_trans)
      qed
      with rest x show ?thesis by simp
    qed
    from l inv' ex' ev' show ?thesis by blast
  qed
qed


subsection \<open>Active dimensions and combinations\<close>

lemma active_dimensions_names:
  "map fst (active_dimensions m) = map fst (filter (\<lambda>(d, t). t \<noteq> []) m)"
  by (induction m) (auto simp: active_dimensions_def)

lemma active_names_subset: "set (map fst (active_dimensions m)) \<subseteq> set (map fst m)"
  unfolding active_dimensions_names by auto

lemma active_names_distinct: "distinct (map fst m) \<Longrightarrow> distinct (map fst (active_dimensions m))"
  unfolding active_dimensions_names by (rule distinct_map_filter)

lemma active_dimensions_set:
  "p \<in> set (active_dimensions m) \<Longrightarrow> \<exists>t. (fst p, t) \<in> set m \<and> set (snd p) = set (map fst t)"
  by (auto simp: active_dimensions_def)

lemma active_name_entry:
  "d \<in> set (map fst (active_dimensions m)) \<Longrightarrow> \<exists>t. (d, t) \<in> set m \<and> t \<noteq> []"
  unfolding active_dimensions_names by auto

lemma keys_of_active:
  assumes "v \<in> keys_of m d"
  shows "d \<in> set (map fst (active_dimensions m))"
proof -
  from assms have "get_default m d [] \<noteq> []" by (auto simp: keys_of_def)
  then obtain t where t: "map_of m d = Some t" and ne: "t \<noteq> []"
    by (cases "map_of m d") (auto simp: get_default_def)
  from t have "(d, t) \<in> set m" by (rule map_of_SomeD)
  with ne show ?thesis unfolding active_dimensions_names by force
qed

lemma inactive_quota: "d \<notin> set (map fst (active_dimensions m)) \<Longrightarrow> quota_of m d v = 0"
  using keys_of_active [of v m d] quota_of_notin_keys [of v m d] by blast

lemma combination_keys:
  assumes "c \<in> set (all_combinations m)" and "d \<in> set (map fst (active_dimensions m))"
  shows "map_of c d \<noteq> None"
proof -
  let ?dims = "active_dimensions m"
  from assms(1) obtain tup where tup: "tup \<in> set (product_lists (map snd ?dims))"
    and c: "c = zip (map fst ?dims) tup"
    by (auto simp: all_combinations_def Let_def)
  from in_set_product_lists_length [OF tup] have "length (map fst ?dims) = length tup" by simp
  from map_of_zip_is_Some [OF this] assms(2) c show ?thesis by auto
qed

lemma combination_nokey:
  assumes "c \<in> set (all_combinations m)" and "d \<notin> set (map fst (active_dimensions m))"
  shows "map_of c d = None"
proof -
  let ?dims = "active_dimensions m"
  from assms(1) obtain tup where tup: "tup \<in> set (product_lists (map snd ?dims))"
    and c: "c = zip (map fst ?dims) tup"
    by (auto simp: all_combinations_def Let_def)
  from in_set_product_lists_length [OF tup] have "length (map fst ?dims) = length tup" by simp
  from map_of_zip_is_None [OF this] assms(2) c show ?thesis by simp
qed

lemma feasible_lookup: "feasible m n \<Longrightarrow> (d, t) \<in> set m \<Longrightarrow> map_of m d = Some t"
  by (simp add: feasible_def)

lemma chosen_combination:
  assumes "feasible m n" and "\<forall>d\<in>set (map fst (active_dimensions m)). f d \<in> keys_of m d"
  shows "zip (map fst (active_dimensions m)) (map f (map fst (active_dimensions m)))
           \<in> set (all_combinations m)"
proof -
  let ?dims = "active_dimensions m"
  have "f (fst p) \<in> set (snd p)" if "p \<in> set ?dims" for p
  proof -
    from active_dimensions_set [OF that] obtain t where t: "(fst p, t) \<in> set m"
      and s: "set (snd p) = set (map fst t)" by blast
    from feasible_lookup [OF assms(1) t] have "keys_of m (fst p) = set (map fst t)"
      by (simp add: keys_of_def get_default_def)
    moreover from assms(2) that have "f (fst p) \<in> keys_of m (fst p)" by simp
    ultimately show ?thesis using s by simp
  qed
  then have "list_all2 (\<lambda>x ys. x \<in> set ys) (map f (map fst ?dims)) (map snd ?dims)"
    by (simp add: list_all2_map1 list_all2_map2 list_all2_same)
  then have "map f (map fst ?dims) \<in> set (product_lists (map snd ?dims))"
    by (simp add: product_lists_set)
  then show ?thesis by (simp add: all_combinations_def Let_def)
qed

lemma combo_tuple_ok: "\<forall>d\<in>set ds. map_of c d \<noteq> None \<Longrightarrow> \<exists>tup. combo_tuple c ds = Inr tup"
  by (induction ds) (auto simp: getitem_def)

lemma combo_weights_ok:
  "\<forall>c\<in>set cs. \<forall>d\<in>set ds. map_of c d \<noteq> None \<Longrightarrow>
   \<exists>cw. combo_weights cs ds wt = Inr cw \<and> map fst cw = cs"
proof (induction cs)
  case Nil
  then show ?case by simp
next
  case (Cons c cs)
  from Cons.prems have "\<forall>d\<in>set ds. map_of c d \<noteq> None" by simp
  from combo_tuple_ok [OF this] obtain tup where "combo_tuple c ds = Inr tup" by blast
  moreover from Cons obtain cw where "combo_weights cs ds wt = Inr cw" "map fst cw = cs" by auto
  ultimately show ?case by simp
qed



subsection \<open>Feasible marginals\<close>

lemma feasible_entry:
  assumes "feasible m n" and "(d, t) \<in> set m"
  shows "distinct (map fst t)" and "\<forall>(k, v)\<in>set t. 0 \<le> v" and "t \<noteq> [] \<Longrightarrow> sum_values t = n"
  using assms by (auto simp: feasible_def)

lemma feasible_quota_nonneg:
  assumes "feasible m n"
  shows "0 \<le> quota_of m d v"
proof (cases "map_of m d")
  case None
  then show ?thesis by (simp add: quota_of_def get_default_def)
next
  case (Some t)
  then have in_m: "(d, t) \<in> set m" by (rule map_of_SomeD)
  show ?thesis
  proof (cases "map_of t v")
    case None
    with Some show ?thesis by (simp add: quota_of_def get_default_def)
  next
    case (Some x)
    then have "(v, x) \<in> set t" by (rule map_of_SomeD)
    with feasible_entry(2) [OF assms in_m] have "0 \<le> x" by auto
    with Some \<open>map_of m d = Some t\<close> show ?thesis by (simp add: quota_of_def get_default_def)
  qed
qed

lemma feasible_quota_sum:
  assumes "feasible m n" and "d \<in> set (map fst (active_dimensions m))"
  shows "(\<Sum>v\<in>keys_of m d. quota_of m d v) = n"
proof -
  from active_name_entry [OF assms(2)] obtain t where in_m: "(d, t) \<in> set m" and ne: "t \<noteq> []"
    by blast
  from feasible_lookup [OF assms(1) in_m] have l: "map_of m d = Some t" .
  then have k: "keys_of m d = set (map fst t)" by (simp add: keys_of_def get_default_def)
  from l have q: "quota_of m d v = get_default t v 0" for v by (rule quota_of_Some)
  from sum_values_keys [OF feasible_entry(1) [OF assms(1) in_m]]
    feasible_entry(3) [OF assms(1) in_m ne]
  show ?thesis by (simp add: k q)
qed

lemma feasible_nonempty: "feasible m n \<Longrightarrow> m \<noteq> []"
  by (auto simp: feasible_def total_events_of_def)

lemma fold_max_const: "\<forall>y\<in>set xs. y = x \<Longrightarrow> fold max xs (x::int) = x"
  by (induction xs) auto

lemma fold_max_ge: "x \<le> fold max xs (x::int)"
proof (induction xs arbitrary: x)
  case Nil
  then show ?case by simp
next
  case (Cons y ys)
  have "x \<le> max y x" by simp
  also have "\<dots> \<le> fold max ys (max y x)" by (rule Cons.IH)
  finally show ?case by simp
qed

lemma sum_values_nonneg: "\<forall>(k, v)\<in>set t. 0 \<le> v \<Longrightarrow> 0 \<le> sum_values t"
  by (induction t) (auto simp: sum_values_def)

lemma feasible_total_nonneg:
  assumes "feasible m n"
  shows "0 \<le> n"
proof -
  from feasible_nonempty [OF assms] obtain p ps where m: "m = p # ps" by (cases m) auto
  obtain d t where p: "p = (d, t)" by (cases p)
  from assms m p have "n = fold max (map (\<lambda>(d, t). sum_values t) ps) (sum_values t)"
    by (simp add: feasible_def total_events_of_def)
  moreover from feasible_entry(2) [OF assms, of d t] m p have "0 \<le> sum_values t"
    by (simp add: sum_values_nonneg)
  moreover have "sum_values t \<le> fold max (map (\<lambda>(d, t). sum_values t) ps) (sum_values t)"
    by (rule fold_max_ge)
  ultimately show ?thesis by linarith
qed

lemma feasible_zero:
  assumes "feasible m 0"
  shows "quota_of m d v = 0"
proof (cases "v \<in> keys_of m d")
  case True
  note act = keys_of_active [OF True]
  have "finite (keys_of m d)" by (simp add: keys_of_def)
  from sum_nonneg_eq_0_iff [OF this, of "\<lambda>v. quota_of m d v"] feasible_quota_nonneg [OF assms]
    feasible_quota_sum [OF assms act] True
  show ?thesis by simp
next
  case False
  then show ?thesis by (rule quota_of_notin_keys)
qed


subsection \<open>The greedy loop exhausts feasible marginals\<close>

lemma initial_solver_inv:
  assumes "feasible m n"
  shows "solver_inv m (map fst (active_dimensions m)) n
           \<lparr>events = [], remaining_quotas = m, remaining_events = n\<rparr>"
proof -
  let ?dn = "map fst (active_dimensions m)"
  have sub: "set ?dn \<subseteq> set (map fst m)" by (rule active_names_subset)
  have "\<forall>d\<in>set ?dn. (\<Sum>v\<in>keys_of m d. quota_of m d v) = n"
    using feasible_quota_sum [OF assms] by blast
  moreover have "\<forall>d\<in>set ?dn. map_of m d \<noteq> None"
    using sub map_of_eq_None_iff [of m] by auto
  ultimately show ?thesis
    using feasible_quota_nonneg [OF assms] feasible_total_nonneg [OF assms]
    by (simp add: solver_inv_def count_value_def)
qed

lemma greedy_exact:
  assumes f: "feasible m n"
  shows "\<exists>s'. solve_integer_assignment_state (all_combinations m)
              (map fst (active_dimensions m)) m wt n = Inr s'
          \<and> remaining_events s' = 0
          \<and> int (length (events s')) = n
          \<and> (\<forall>d\<in>set (map fst (active_dimensions m)). \<forall>v.
                quota_of (remaining_quotas s') d v = 0
              \<and> int (count_value (events s') d v) = quota_of m d v)
          \<and> set (events s') \<subseteq> set (all_combinations m)"
proof -
  let ?dn = "map fst (active_dimensions m)"
  let ?cs = "all_combinations m"
  let ?s0 = "\<lparr>events = [], remaining_quotas = m, remaining_events = n\<rparr>"
  from f have dn: "distinct ?dn" by (simp add: feasible_def active_names_distinct)
  have keys: "\<forall>c\<in>set ?cs. \<forall>d\<in>set ?dn. map_of c d \<noteq> None"
    using combination_keys by blast
  from combo_weights_ok [OF keys] obtain cw where cw: "combo_weights ?cs ?dn wt = Inr cw"
    and fcw: "map fst cw = ?cs" by blast
  let ?sw = "sort_by_weight cw"
  have ssw: "fst ` set ?sw = set ?cs"
    using fcw by (simp add: sort_by_weight_def) (metis set_map)
  then have kw: "\<forall>x\<in>set ?sw. \<forall>d\<in>set ?dn. map_of (fst x) d \<noteq> None"
    using keys by blast
  from assign_loop_total [OF dn initial_solver_inv [OF f] kw] obtain s' where
    l: "assign_loop ?dn ?sw ?s0 = Inr s'"
    and inv: "solver_inv m ?dn n s'"
    and ex: "remaining_events s' \<le> 0
           \<or> (\<forall>x\<in>set ?sw. \<exists>d\<in>set ?dn. \<exists>v. map_of (fst x) d = Some v
                   \<and> quota_of (remaining_quotas s') d v \<le> 0)"
    and ev: "set (events s') \<subseteq> set (events ?s0) \<union> fst ` set ?sw"
    by blast
  from inv [unfolded solver_inv_def]
  have nn: "\<And>d v. 0 \<le> quota_of (remaining_quotas s') d v"
    and le: "\<And>d v. quota_of (remaining_quotas s') d v \<le> quota_of m d v"
    and cnt: "\<And>d v. d \<in> set ?dn \<Longrightarrow>
        int (count_value (events s') d v) + quota_of (remaining_quotas s') d v = quota_of m d v"
    and sm: "\<And>d. d \<in> set ?dn \<Longrightarrow>
        (\<Sum>v\<in>keys_of m d. quota_of (remaining_quotas s') d v) = remaining_events s'"
    and tot: "int (length (events s')) + remaining_events s' = n"
    and r0: "0 \<le> remaining_events s'"
    by blast+
  have fin: "finite (keys_of m d)" for d by (simp add: keys_of_def)
  have nomore: "remaining_events s' \<le> 0"
  proof (rule ccontr)
    assume "\<not> remaining_events s' \<le> 0"
    then have pos: "0 < remaining_events s'" by simp
    have "\<exists>v. v \<in> keys_of m d \<and> 0 < quota_of (remaining_quotas s') d v" if "d \<in> set ?dn" for d
    proof (rule ccontr)
      assume "\<not> (\<exists>v. v \<in> keys_of m d \<and> 0 < quota_of (remaining_quotas s') d v)"
      then have "\<forall>v\<in>keys_of m d. quota_of (remaining_quotas s') d v \<le> 0" by force
      then have "(\<Sum>v\<in>keys_of m d. quota_of (remaining_quotas s') d v) \<le> 0"
        by (simp add: sum_nonpos)
      with sm [OF that] pos show False by simp
    qed
    then obtain g where g: "\<And>d. d \<in> set ?dn \<Longrightarrow>
        g d \<in> keys_of m d \<and> 0 < quota_of (remaining_quotas s') d (g d)"
      by metis
    let ?c = "zip ?dn (map g ?dn)"
    from g have "\<forall>d\<in>set ?dn. g d \<in> keys_of m d" by blast
    from chosen_combination [OF f this] have "?c \<in> set ?cs" .
    with ssw obtain x where x: "x \<in> set ?sw" and fx: "fst x = ?c" by force
    from pos ex have "\<forall>x\<in>set ?sw. \<exists>d\<in>set ?dn. \<exists>v. map_of (fst x) d = Some v
                   \<and> quota_of (remaining_quotas s') d v \<le> 0" by linarith
    with x obtain d v where d: "d \<in> set ?dn" and v: "map_of (fst x) d = Some v"
      and q: "quota_of (remaining_quotas s') d v \<le> 0" by blast
    from d have "map_of ?c d = Some (g d)" by (simp only: map_of_zip_map if_True)
    with v fx have "v = g d" by simp
    with g [OF d] q show False by simp
  qed
  with r0 have rem: "remaining_events s' = 0" by simp
  have zero: "quota_of (remaining_quotas s') d v = 0" if d: "d \<in> set ?dn" for d v
  proof (cases "v \<in> keys_of m d")
    case True
    from sm [OF d] rem have "(\<Sum>v\<in>keys_of m d. quota_of (remaining_quotas s') d v) = 0" by simp
    then have "\<forall>v\<in>keys_of m d. quota_of (remaining_quotas s') d v = 0"
      using sum_nonneg_eq_0_iff [OF fin, of d "\<lambda>v. quota_of (remaining_quotas s') d v"] nn
      by simp
    with True show ?thesis by blast
  next
    case False
    from quota_of_notin_keys [OF this] le [of d v] nn [of d v] show ?thesis by simp
  qed
  have "\<forall>d\<in>set ?dn. \<forall>v. quota_of (remaining_quotas s') d v = 0
              \<and> int (count_value (events s') d v) = quota_of m d v"
  proof (intro ballI allI conjI)
    fix d v assume d: "d \<in> set ?dn"
    show "quota_of (remaining_quotas s') d v = 0" by (rule zero [OF d])
    from cnt [OF d, of v] zero [OF d, of v]
    show "int (count_value (events s') d v) = quota_of m d v" by simp
  qed
  moreover from ev ssw have "set (events s') \<subseteq> set ?cs" by simp
  moreover from tot rem have "int (length (events s')) = n" by simp
  moreover from cw l have "solve_integer_assignment_state ?cs ?dn m wt n = Inr s'"
    by (simp add: solve_integer_assignment_state_def)
  ultimately show ?thesis using rem by blast
qed


subsection \<open>The recount of the verifier\<close>

lemma count_event_effect:
  "distinct ds \<Longrightarrow> count_event ds e r = Inr r' \<Longrightarrow>
   quota_of r' d v = quota_of r d v + (if d \<in> set ds \<and> map_of e d = Some v then 1 else 0)"
proof (induction ds arbitrary: r)
  case Nil
  then show ?case by simp
next
  case (Cons x ds)
  from Cons.prems obtain w t where w: "map_of e x = Some w" and t: "map_of r x = Some t"
    and rr: "count_event ds e (AList.update x (AList.update w (get_default t w 0 + 1) t) r) = Inr r'"
    by (auto simp: ebind_Inr_iff getitem_Inr_iff)
  from Cons.prems have dist: "distinct ds" and x: "x \<notin> set ds" by auto
  from t have qn: "quota_of r x w = get_default t w 0" by (rule quota_of_Some)
  from Cons.IH [OF dist rr] show ?case
    using w x qn by (auto simp: quota_of_update [OF t])
qed

lemma count_event_dom:
  "count_event ds e r = Inr r' \<Longrightarrow> map_of r d \<noteq> None \<Longrightarrow> map_of r' d \<noteq> None"
proof (induction ds arbitrary: r)
  case Nil
  then show ?case by simp
next
  case (Cons x ds)
  from Cons.prems(1) obtain w t where
    rr: "count_event ds e (AList.update x (AList.update w (get_default t w 0 + 1) t) r) = Inr r'"
    by (auto simp: ebind_Inr_iff getitem_Inr_iff)
  from Cons.IH [OF rr] Cons.prems(2) show ?case by (simp add: update_conv')
qed

lemma count_event_ok:
  "\<forall>d\<in>set ds. map_of e d \<noteq> None \<and> map_of r d \<noteq> None \<Longrightarrow> \<exists>r'. count_event ds e r = Inr r'"
proof (induction ds arbitrary: r)
  case Nil
  then show ?case by simp
next
  case (Cons x ds)
  from Cons.prems obtain w t where w: "map_of e x = Some w" and t: "map_of r x = Some t" by auto
  let ?r1 = "AList.update x (AList.update w (get_default t w 0 + 1) t) r"
  from Cons.prems have "\<forall>d\<in>set ds. map_of e d \<noteq> None \<and> map_of ?r1 d \<noteq> None"
    by (simp add: update_conv')
  from Cons.IH [OF this] obtain r' where "count_event ds e ?r1 = Inr r'" by blast
  with w t show ?case by (simp add: getitem_def)
qed

lemma count_event_KeyError:
  "\<exists>d\<in>set ds. map_of e d = None \<Longrightarrow> \<forall>d\<in>set ds. map_of r d \<noteq> None \<Longrightarrow>
   count_event ds e r = Inl KeyError"
proof (induction ds arbitrary: r)
  case Nil
  then show ?case by simp
next
  case (Cons x ds)
  show ?case
  proof (cases "map_of e x")
    case None
    then show ?thesis by (simp add: getitem_def)
  next
    case (Some w)
    from Cons.prems(2) obtain t where t: "map_of r x = Some t" by auto
    let ?r1 = "AList.update x (AList.update w (get_default t w 0 + 1) t) r"
    from Cons.prems(1) Some have 1: "\<exists>d\<in>set ds. map_of e d = None" by auto
    from Cons.prems(2) have 2: "\<forall>d\<in>set ds. map_of ?r1 d \<noteq> None" by (simp add: update_conv')
    from Cons.IH [OF 1 2] Some t show ?thesis by (simp add: getitem_def)
  qed
qed

lemma count_events_total:
  assumes ds: "distinct ds"
  shows "\<forall>e\<in>set es. \<forall>d\<in>set ds. map_of e d \<noteq> None \<Longrightarrow> \<forall>d\<in>set ds. map_of r d \<noteq> None \<Longrightarrow>
    \<exists>r'. count_events ds es r = Inr r'
       \<and> (\<forall>d v. quota_of r' d v
                  = quota_of r d v + (if d \<in> set ds then int (count_value es d v) else 0))"
proof (induction es arbitrary: r)
  case Nil
  then show ?case by (simp add: count_value_def)
next
  case (Cons e es)
  from Cons.prems have "\<forall>d\<in>set ds. map_of e d \<noteq> None \<and> map_of r d \<noteq> None" by simp
  from count_event_ok [OF this] obtain r1 where 1: "count_event ds e r = Inr r1" by blast
  from count_event_dom [OF 1] Cons.prems(2) have d1: "\<forall>d\<in>set ds. map_of r1 d \<noteq> None" by blast
  from Cons.prems(1) have "\<forall>e\<in>set es. \<forall>d\<in>set ds. map_of e d \<noteq> None" by simp
  from Cons.IH [OF this d1] obtain r' where 2: "count_events ds es r1 = Inr r'"
    and c: "\<forall>d v. quota_of r' d v
                  = quota_of r1 d v + (if d \<in> set ds then int (count_value es d v) else 0)"
    by blast
  have "quota_of r' d v
          = quota_of r d v + (if d \<in> set ds then int (count_value (e # es) d v) else 0)" for d v
    using c [rule_format, of d v] count_event_effect [OF ds 1, of d v]
    by (simp add: count_value_def)
  with 1 2 show ?case by simp
qed

lemma recount_start:
  "map_of (map (\<lambda>d. (d, [])) ds :: marginals) d = (if d \<in> set ds then Some [] else None)"
  by (induction ds) auto

lemma recount_total:
  assumes "distinct ds" and "\<forall>e\<in>set evs. \<forall>d\<in>set ds. map_of e d \<noteq> None"
  shows "\<exists>r. recount ds evs = Inr r
          \<and> (\<forall>d v. quota_of r d v = (if d \<in> set ds then int (count_value evs d v) else 0))"
proof -
  let ?r0 = "map (\<lambda>d. (d, [])) ds :: marginals"
  have d0: "\<forall>d\<in>set ds. map_of ?r0 d \<noteq> None" by (simp add: recount_start)
  have q0: "quota_of ?r0 d v = 0" for d v
    by (simp add: quota_of_def get_default_def recount_start)
  from count_events_total [OF assms(1) assms(2) d0] q0 show ?thesis
    by (simp add: recount_def)
qed

lemma recount_KeyError:
  assumes "\<exists>d\<in>set ds. map_of e d = None"
  shows "recount ds (e # es) = Inl KeyError"
proof -
  let ?r0 = "map (\<lambda>d. (d, [])) ds :: marginals"
  have d0: "\<forall>d\<in>set ds. map_of ?r0 d \<noteq> None" by (simp add: recount_start)
  from count_event_KeyError [OF assms d0] show ?thesis by (simp add: recount_def)
qed

lemma compare_marginals_eq:
  assumes "\<forall>d\<in>set dimension_names. \<forall>v. quota_of r d v = quota_of m d v"
  shows "compare_marginals m r"
  using assms
  by (simp add: compare_marginals_def compare_dimension_def Let_def list_all_iff quota_of_def)


subsection \<open>The round trip\<close>

lemma round_trip_solver:
  assumes f: "feasible m n"
  shows "\<exists>evs r. solve_integer_assignment (all_combinations m) (map fst (active_dimensions m))
                    m wt n = Inr evs
          \<and> int (length evs) = n
          \<and> recount (map fst (active_dimensions m)) evs = Inr r
          \<and> (\<forall>d v. quota_of r d v = quota_of m d v)
          \<and> (n = 0 \<or> set dimension_names \<subseteq> set (map fst (active_dimensions m)) \<longrightarrow>
               (\<exists>r5. reconstruct_marginals_from_events evs = Inr r5
                  \<and> (\<forall>d\<in>set dimension_names. \<forall>v. quota_of r5 d v = quota_of m d v)
                  \<and> compare_marginals m r5))
          \<and> (0 < n \<and> \<not> set dimension_names \<subseteq> set (map fst (active_dimensions m)) \<longrightarrow>
               reconstruct_marginals_from_events evs = Inl KeyError)"
proof -
  let ?dn = "map fst (active_dimensions m)"
  from greedy_exact [OF f, of wt] obtain s' where
    st: "solve_integer_assignment_state (all_combinations m) ?dn m wt n = Inr s'"
    and len: "int (length (events s')) = n"
    and cnt: "\<forall>d\<in>set ?dn. \<forall>v. int (count_value (events s') d v) = quota_of m d v"
    and sub: "set (events s') \<subseteq> set (all_combinations m)"
    by blast
  let ?evs = "events s'"
  from st have so: "solve_integer_assignment (all_combinations m) ?dn m wt n = Inr ?evs"
    by (simp add: solve_integer_assignment_def)
  from f have dn: "distinct ?dn" by (simp add: feasible_def active_names_distinct)
  have dd: "distinct dimension_names" by (simp add: dimension_names_def)
  have keys: "\<forall>e\<in>set ?evs. \<forall>d\<in>set ?dn. map_of e d \<noteq> None"
    using sub combination_keys by blast
  from recount_total [OF dn keys] obtain r where
    r: "recount ?dn ?evs = Inr r"
    and rq: "\<forall>d v. quota_of r d v = (if d \<in> set ?dn then int (count_value ?evs d v) else 0)"
    by blast
  have eq: "\<forall>d v. quota_of r d v = quota_of m d v"
  proof (intro allI)
    fix d v
    show "quota_of r d v = quota_of m d v"
    proof (cases "d \<in> set ?dn")
      case True
      with cnt have "int (count_value ?evs d v) = quota_of m d v" by blast
      with rq True show ?thesis by simp
    next
      case False
      with rq inactive_quota [OF False] show ?thesis by simp
    qed
  qed
  have match: "\<exists>r5. reconstruct_marginals_from_events ?evs = Inr r5
                  \<and> (\<forall>d\<in>set dimension_names. \<forall>v. quota_of r5 d v = quota_of m d v)
                  \<and> compare_marginals m r5"
    if c: "n = 0 \<or> set dimension_names \<subseteq> set ?dn"
  proof -
    have "(\<forall>e\<in>set ?evs. \<forall>d\<in>set dimension_names. map_of e d \<noteq> None)
      \<and> (\<forall>d\<in>set dimension_names. \<forall>v. int (count_value ?evs d v) = quota_of m d v)"
    proof (cases "n = 0")
      case True
      with len have e: "?evs = []" by simp
      from f True have "feasible m 0" by simp
      from feasible_zero [OF this] e show ?thesis by (simp add: count_value_def)
    next
      case False
      with c have s5: "set dimension_names \<subseteq> set ?dn" by simp
      with keys cnt show ?thesis by blast
    qed
    then have keys5: "\<forall>e\<in>set ?evs. \<forall>d\<in>set dimension_names. map_of e d \<noteq> None"
      and same: "\<forall>d\<in>set dimension_names. \<forall>v. int (count_value ?evs d v) = quota_of m d v"
      by blast+
    from recount_total [OF dd keys5] obtain r5 where
      r5: "reconstruct_marginals_from_events ?evs = Inr r5"
      and q5: "\<forall>d v. quota_of r5 d v
                 = (if d \<in> set dimension_names then int (count_value ?evs d v) else 0)"
      by (auto simp: reconstruct_marginals_from_events_def)
    from q5 same have e5: "\<forall>d\<in>set dimension_names. \<forall>v. quota_of r5 d v = quota_of m d v"
      by simp
    from r5 e5 compare_marginals_eq [OF e5] show ?thesis by blast
  qed
  have fail: "reconstruct_marginals_from_events ?evs = Inl KeyError"
    if c: "0 < n \<and> \<not> set dimension_names \<subseteq> set ?dn"
  proof -
    from c len obtain e es where e: "?evs = e # es" by (cases ?evs) auto
    with sub have ec: "e \<in> set (all_combinations m)" by simp
    from c obtain d where d: "d \<in> set dimension_names" and nd: "d \<notin> set ?dn" by blast
    from combination_nokey [OF ec nd] d have "\<exists>d\<in>set dimension_names. map_of e d = None"
      by blast
    from recount_KeyError [OF this, of es] e show ?thesis
      by (simp add: reconstruct_marginals_from_events_def)
  qed
  from so len r eq match fail show ?thesis by blast
qed

text \<open>
  C1 (as amended). For jointly feasible marginals with common total \<open>n\<close> and for every weight
  table, the Assignment Solver, run over all combinations of the active dimensions, raises
  nothing and returns exactly \<open>n\<close> events, and counting the occurrences of each category value
  per active dimension gives every category value of every dimension its input count (a
  value of count 0 counting as absent). The Round-trip Verifier reports an overall match
  when each of its five dimensions is active, and when \<open>n = 0\<close>; when \<open>n > 0\<close> and one of the
  five dimensions is empty or missing, the verifier raises KeyError on the first event
  and reports nothing. When \<open>n > 0\<close> the same holds for the whole \<open>solve_exact_distribution\<close>.
\<close>

theorem round_trip_exact:
  assumes "feasible m n"
  shows "total_events_of m = Inr n
     \<and> (\<exists>evs r. solve_integer_assignment (all_combinations m) (map fst (active_dimensions m))
                    m wt n = Inr evs
          \<and> int (length evs) = n
          \<and> recount (map fst (active_dimensions m)) evs = Inr r
          \<and> (\<forall>d v. quota_of r d v = quota_of m d v)
          \<and> (n = 0 \<or> set dimension_names \<subseteq> set (map fst (active_dimensions m)) \<longrightarrow>
               (\<exists>r5. reconstruct_marginals_from_events evs = Inr r5
                  \<and> (\<forall>d\<in>set dimension_names. \<forall>v. quota_of r5 d v = quota_of m d v)
                  \<and> compare_marginals m r5))
          \<and> (0 < n \<and> \<not> set dimension_names \<subseteq> set (map fst (active_dimensions m)) \<longrightarrow>
               reconstruct_marginals_from_events evs = Inl KeyError))
     \<and> (0 < n \<longrightarrow>
          (\<exists>evs r. solve_exact_distribution m = Inr (evs, all_combinations m)
             \<and> int (length evs) = n
             \<and> recount (map fst (active_dimensions m)) evs = Inr r
             \<and> (\<forall>d v. quota_of r d v = quota_of m d v)
             \<and> (set dimension_names \<subseteq> set (map fst (active_dimensions m)) \<longrightarrow>
                  (\<exists>r5. reconstruct_marginals_from_events evs = Inr r5
                     \<and> (\<forall>d\<in>set dimension_names. \<forall>v. quota_of r5 d v = quota_of m d v)
                     \<and> compare_marginals m r5))
             \<and> (\<not> set dimension_names \<subseteq> set (map fst (active_dimensions m)) \<longrightarrow>
                  reconstruct_marginals_from_events evs = Inl KeyError)))"
proof (intro conjI impI)
  from assms show te: "total_events_of m = Inr n" by (simp add: feasible_def)
  show "\<exists>evs r. solve_integer_assignment (all_combinations m) (map fst (active_dimensions m))
                    m wt n = Inr evs
          \<and> int (length evs) = n
          \<and> recount (map fst (active_dimensions m)) evs = Inr r
          \<and> (\<forall>d v. quota_of r d v = quota_of m d v)
          \<and> (n = 0 \<or> set dimension_names \<subseteq> set (map fst (active_dimensions m)) \<longrightarrow>
               (\<exists>r5. reconstruct_marginals_from_events evs = Inr r5
                  \<and> (\<forall>d\<in>set dimension_names. \<forall>v. quota_of r5 d v = quota_of m d v)
                  \<and> compare_marginals m r5))
          \<and> (0 < n \<and> \<not> set dimension_names \<subseteq> set (map fst (active_dimensions m)) \<longrightarrow>
               reconstruct_marginals_from_events evs = Inl KeyError)"
    by (rule round_trip_solver [OF assms])
  assume pos: "0 < n"
  note ne = feasible_nonempty [OF assms]
  from te pos have "total_events_of m \<noteq> Inr 0" by simp
  from run_ipf_sweeps_ok [OF ne this] obtain tbl k where "run_ipf_sweeps m = Inr (tbl, k)" by blast
  then have ipf: "run_ipf_for_weights m = Inr (tbl, None, map fst (active_dimensions m))"
    by (simp add: run_ipf_for_weights_def)
  from round_trip_solver [OF assms, of tbl] obtain evs r where
    so: "solve_integer_assignment (all_combinations m) (map fst (active_dimensions m))
                    m tbl n = Inr evs"
    and len: "int (length evs) = n"
    and r: "recount (map fst (active_dimensions m)) evs = Inr r"
    and eq: "\<forall>d v. quota_of r d v = quota_of m d v"
    and match: "n = 0 \<or> set dimension_names \<subseteq> set (map fst (active_dimensions m)) \<longrightarrow>
               (\<exists>r5. reconstruct_marginals_from_events evs = Inr r5
                  \<and> (\<forall>d\<in>set dimension_names. \<forall>v. quota_of r5 d v = quota_of m d v)
                  \<and> compare_marginals m r5)"
    and fail: "0 < n \<and> \<not> set dimension_names \<subseteq> set (map fst (active_dimensions m)) \<longrightarrow>
               reconstruct_marginals_from_events evs = Inl KeyError"
    by blast
  have act: "active_dimensions m \<noteq> []"
  proof
    assume a: "active_dimensions m = []"
    from ne obtain p ps where m: "m = p # ps" by (cases m) auto
    from a have z: "sum_values (snd x) = 0" if "x \<in> set m" for x
      using that by (auto simp: active_dimensions_def filter_empty_conv sum_values_def)
    have "fold max (map (\<lambda>(d, t). sum_values t) ps) 0 = 0"
      by (rule fold_max_const) (use z m in \<open>auto simp: case_prod_beta\<close>)
    moreover from z m have "sum_values (snd p) = 0" by simp
    ultimately have "total_events_of m = Inr 0"
      by (simp add: total_events_of_def m case_prod_beta)
    with te pos show False by simp
  qed
  from act ipf te so have "solve_exact_distribution m = Inr (evs, all_combinations m)"
    by (simp add: solve_exact_distribution_def Let_def)
  with len r eq match fail pos
  show "\<exists>evs r. solve_exact_distribution m = Inr (evs, all_combinations m)
             \<and> int (length evs) = n
             \<and> recount (map fst (active_dimensions m)) evs = Inr r
             \<and> (\<forall>d v. quota_of r d v = quota_of m d v)
             \<and> (set dimension_names \<subseteq> set (map fst (active_dimensions m)) \<longrightarrow>
                  (\<exists>r5. reconstruct_marginals_from_events evs = Inr r5
                     \<and> (\<forall>d\<in>set dimension_names. \<forall>v. quota_of r5 d v = quota_of m d v)
                     \<and> compare_marginals m r5))
             \<and> (\<not> set dimension_names \<subseteq> set (map fst (active_dimensions m)) \<longrightarrow>
                  reconstruct_marginals_from_events evs = Inl KeyError)"
    by blast
qed

theorem round_trip_exact_witness:
  "feasible five_dim_marginals 3
   \<and> total_events_of five_dim_marginals = Inr 3
   \<and> set dimension_names \<subseteq> set (map fst (active_dimensions five_dim_marginals))
   \<and> (\<exists>evs r r5. solve_exact_distribution five_dim_marginals =
                  Inr (evs, all_combinations five_dim_marginals)
         \<and> int (length evs) = 3
         \<and> recount (map fst (active_dimensions five_dim_marginals)) evs = Inr r
         \<and> (\<forall>d v. quota_of r d v = quota_of five_dim_marginals d v)
         \<and> reconstruct_marginals_from_events evs = Inr r5
         \<and> compare_marginals five_dim_marginals r5)
   \<and> feasible feasible_marginals 5
   \<and> \<not> set dimension_names \<subseteq> set (map fst (active_dimensions feasible_marginals))
   \<and> (\<exists>evs r. solve_exact_distribution feasible_marginals =
                  Inr (evs, all_combinations feasible_marginals)
         \<and> int (length evs) = 5
         \<and> recount (map fst (active_dimensions feasible_marginals)) evs = Inr r
         \<and> (\<forall>d v. quota_of r d v = quota_of feasible_marginals d v)
         \<and> reconstruct_marginals_from_events evs = Inl KeyError)"
proof -
  have f: "feasible five_dim_marginals 3" by code_simp
  have p: "0 < (3::int)" by simp
  have s: "set dimension_names \<subseteq> set (map fst (active_dimensions five_dim_marginals))"
    by code_simp
  note t = round_trip_exact [OF f, of "[]"]
  from t have 1: "total_events_of five_dim_marginals = Inr 3" by (rule conjunct1)
  from t [THEN conjunct2, THEN conjunct2, THEN mp, OF p] s have A:
    "\<exists>evs r r5. solve_exact_distribution five_dim_marginals =
                  Inr (evs, all_combinations five_dim_marginals)
         \<and> int (length evs) = 3
         \<and> recount (map fst (active_dimensions five_dim_marginals)) evs = Inr r
         \<and> (\<forall>d v. quota_of r d v = quota_of five_dim_marginals d v)
         \<and> reconstruct_marginals_from_events evs = Inr r5
         \<and> compare_marginals five_dim_marginals r5"
    by blast
  have f2: "feasible feasible_marginals 5" by code_simp
  have p2: "0 < (5::int)" by simp
  have s2: "\<not> set dimension_names \<subseteq> set (map fst (active_dimensions feasible_marginals))"
    by code_simp
  note t2 = round_trip_exact [OF f2, of "[]"]
  from t2 [THEN conjunct2, THEN conjunct2, THEN mp, OF p2] s2 have B:
    "\<exists>evs r. solve_exact_distribution feasible_marginals =
                  Inr (evs, all_combinations feasible_marginals)
         \<and> int (length evs) = 5
         \<and> recount (map fst (active_dimensions feasible_marginals)) evs = Inr r
         \<and> (\<forall>d v. quota_of r d v = quota_of feasible_marginals d v)
         \<and> reconstruct_marginals_from_events evs = Inl KeyError"
    by blast
  from f 1 s A f2 s2 B show ?thesis by blast
qed

theorem round_trip_counterexample:
  "feasible feasible_marginals 5
   \<and> solve_exact_distribution feasible_marginals =
       Inr ([[(''pages'', ''/a''), (''browsers'', ''Chrome'')],
         [(''pages'', ''/a''), (''browsers'', ''Chrome'')],
         [(''pages'', ''/a''), (''browsers'', ''Chrome'')],
         [(''pages'', ''/b''), (''browsers'', ''Chrome'')],
         [(''pages'', ''/b''), (''browsers'', ''Safari'')]],
            all_combinations feasible_marginals)
   \<and> recount [''pages'', ''browsers'']
        [[(''pages'', ''/a''), (''browsers'', ''Chrome'')],
         [(''pages'', ''/a''), (''browsers'', ''Chrome'')],
         [(''pages'', ''/a''), (''browsers'', ''Chrome'')],
         [(''pages'', ''/b''), (''browsers'', ''Chrome'')],
         [(''pages'', ''/b''), (''browsers'', ''Safari'')]] = Inr feasible_marginals
   \<and> reconstruct_marginals_from_events
        [[(''pages'', ''/a''), (''browsers'', ''Chrome'')],
         [(''pages'', ''/a''), (''browsers'', ''Chrome'')],
         [(''pages'', ''/a''), (''browsers'', ''Chrome'')],
         [(''pages'', ''/b''), (''browsers'', ''Chrome'')],
         [(''pages'', ''/b''), (''browsers'', ''Safari'')]] = Inl KeyError
   \<and> feasible sparse_marginals 3
   \<and> solve_exact_distribution sparse_marginals =
       Inr ([[(''pages'', ''/a''), (''browsers'', ''Chrome''), (''referrers'', ''(direct)'')],
         [(''pages'', ''/a''), (''browsers'', ''Chrome''), (''referrers'', ''(direct)'')],
         [(''pages'', ''/b''), (''browsers'', ''Chrome''), (''referrers'', ''(direct)'')]],
            all_combinations sparse_marginals)
   \<and> recount [''pages'', ''browsers'', ''referrers'']
        [[(''pages'', ''/a''), (''browsers'', ''Chrome''), (''referrers'', ''(direct)'')],
         [(''pages'', ''/a''), (''browsers'', ''Chrome''), (''referrers'', ''(direct)'')],
         [(''pages'', ''/b''), (''browsers'', ''Chrome''), (''referrers'', ''(direct)'')]] =
       Inr [(''pages'', [(''/a'', 2), (''/b'', 1)]), (''browsers'', [(''Chrome'', 3)]),
            (''referrers'', [(''(direct)'', 3)])]
   \<and> reconstruct_marginals_from_events
        [[(''pages'', ''/a''), (''browsers'', ''Chrome''), (''referrers'', ''(direct)'')],
         [(''pages'', ''/a''), (''browsers'', ''Chrome''), (''referrers'', ''(direct)'')],
         [(''pages'', ''/b''), (''browsers'', ''Chrome''), (''referrers'', ''(direct)'')]] = Inl KeyError"
  by code_simp

end
